theory Spec2Isabelle
  imports Main
begin

section \<open>The query builder of packages/core/database/lib/query/query-builder.js\<close>

text \<open>
  The builder returned by \<^verbatim>\<open>createQueryBuilder(uid, db)\<close> owns one mutable \<^verbatim>\<open>state\<close>
  object. Every method mutates that object and returns the builder. The embedding passes
  the state explicitly: a setter maps a state to the updated state, and
  \<^verbatim>\<open>getKnexQuery\<close> maps a state to the updated state together with the calls it makes
  on the native (knex) query and on \<^verbatim>\<open>db\<close>. The methods \<^verbatim>\<open>ref\<close>, \<^verbatim>\<open>raw\<close>, \<^verbatim>\<open>init\<close> and
  \<^verbatim>\<open>execute\<close> are not part of the embedding.
\<close>

subsection \<open>JavaScript values\<close>

text \<open>
  The values the setters receive. Numbers are integers here (limits, offsets, ids).
  An array and a plain object carry the reference under which JavaScript knows them, next to
  their content: \<open>JObj r kvs\<close> is the plain object at reference \<open>r\<close> with the own
  properties \<open>kvs\<close> in insertion order. Two objects are the same value when they are the
  same reference, whatever they hold.
\<close>

type_synonym ref = nat

datatype jsval =
    JUndefined
  | JNull
  | JBool bool
  | JNum int
  | JStr string
  | JArr ref "jsval list"
  | JObj ref "(string \<times> jsval) list"

text \<open>SameValueZero, the comparison of \<^verbatim>\<open>_.uniq\<close> and \<^verbatim>\<open>Array.prototype.includes\<close>: arrays and
  objects by reference, every other value by its value. \<open>identity\<close> is what is compared.\<close>

fun identity :: "jsval \<Rightarrow> ref + jsval" where
  "identity (JArr r xs) = Inl r"
| "identity (JObj r kvs) = Inl r"
| "identity v = Inr v"

definition sameValueZero :: "jsval \<Rightarrow> jsval \<Rightarrow> bool" where
  "sameValueZero a b = (identity a = identity b)"

text \<open>\<^verbatim>\<open>_.isNil(v)\<close>: v is null or undefined.\<close>

fun isNil :: "jsval \<Rightarrow> bool" where
  "isNil JUndefined = True"
| "isNil JNull = True"
| "isNil _ = False"

text \<open>The truth value of \<^verbatim>\<open>if (v)\<close>: undefined, null, false, 0 and the empty string are falsy.\<close>

fun truthy :: "jsval \<Rightarrow> bool" where
  "truthy JUndefined = False"
| "truthy JNull = False"
| "truthy (JBool b) = b"
| "truthy (JNum n) = (n \<noteq> 0)"
| "truthy (JStr s) = (s \<noteq> [])"
| "truthy (JArr _ _) = True"
| "truthy (JObj _ _) = True"

text \<open>\<^verbatim>\<open>_.isPlainObject(v)\<close>.\<close>

fun isPlainObject :: "jsval \<Rightarrow> bool" where
  "isPlainObject (JObj _ _) = True"
| "isPlainObject _ = False"

text \<open>\<^verbatim>\<open>_.castArray(v)\<close>: an array is returned as it is, any other value becomes a
  one-element array.\<close>

fun castArray :: "jsval \<Rightarrow> jsval list" where
  "castArray (JArr r xs) = xs"
| "castArray v = [v]"

text \<open>\<^verbatim>\<open>_.uniq(xs)\<close>: walks the array from the left and keeps a value when no value kept so
  far is the same value (SameValueZero).\<close>

fun baseUniq :: "jsval list \<Rightarrow> jsval list \<Rightarrow> jsval list" where
  "baseUniq acc [] = acc"
| "baseUniq acc (x # xs) =
     (if list_ex (\<lambda>y. sameValueZero y x) acc then baseUniq acc xs else baseUniq (acc @ [x]) xs)"

definition uniq :: "jsval list \<Rightarrow> jsval list" where
  "uniq xs = baseUniq [] xs"

text \<open>\<^verbatim>\<open>_.has(key, obj)\<close> for a one-segment path: obj has the own property key.\<close>

fun has :: "string \<Rightarrow> jsval \<Rightarrow> bool" where
  "has k (JObj r kvs) = (k \<in> set (map fst kvs))"
| "has k _ = False"

text \<open>\<^verbatim>\<open>str.indexOf(c)\<close> for a one-character needle: the first position of c, or -1.\<close>

fun indexOf :: "string \<Rightarrow> char \<Rightarrow> int" where
  "indexOf [] c = -1"
| "indexOf (x # xs) c =
     (if x = c then 0 else (let i = indexOf xs c in if i < 0 then -1 else i + 1))"

text \<open>The destructuring \<^verbatim>\<open>({ column }) => column\<close>: it throws on null and undefined and
  reads the property otherwise (undefined when there is none).\<close>

datatype error = Error string | TypeError string

fun getColumn :: "jsval \<Rightarrow> error + jsval" where
  "getColumn JUndefined = Inl (TypeError ''Cannot destructure property column of undefined'')"
| "getColumn JNull = Inl (TypeError ''Cannot destructure property column of null'')"
| "getColumn (JObj r kvs) = Inr (case map_of kvs ''column'' of None \<Rightarrow> JUndefined | Some v \<Rightarrow> v)"
| "getColumn _ = Inr JUndefined"

fun mapColumns :: "jsval list \<Rightarrow> error + jsval list" where
  "mapColumns [] = Inr []"
| "mapColumns (x # xs) =
     (case getColumn x of
        Inl e \<Rightarrow> Inl e
      | Inr c \<Rightarrow> (case mapColumns xs of Inl e \<Rightarrow> Inl e | Inr cs \<Rightarrow> Inr (c # cs)))"

subsection \<open>The alias allocator\<close>

text \<open>\<^verbatim>\<open>let counter = 0; const getAlias = () => `t${counter++}`;\<close>\<close>

fun digits :: "nat \<Rightarrow> string" where
  "digits n = (if n < 10 then [''0123456789'' ! n] else digits (n div 10) @ [''0123456789'' ! (n mod 10)])"

definition getAlias :: "nat \<Rightarrow> string \<times> nat" where
  "getAlias counter = (''t'' @ digits counter, counter + 1)"

text \<open>The builder's own alias: \<^verbatim>\<open>alias: getAlias()\<close>, the first call on counter 0.\<close>

definition alias_qb :: string where
  "alias_qb = fst (getAlias 0)"

subsection \<open>The query state\<close>

datatype query_type = Select | Insert | Update | Delete | Count | Truncate

text \<open>
  The mutable variables of the closure: the fields of \<^verbatim>\<open>state\<close>, under their source names
  with the suffix \<open>_st\<close>, and the alias counter \<^verbatim>\<open>counter\<close>.
  \<^verbatim>\<open>search\<close> is absent from the initial object, so it starts undefined.
  \<^verbatim>\<open>select\<close>, \<^verbatim>\<open>where\<close>, \<^verbatim>\<open>joins\<close>, \<^verbatim>\<open>orderBy\<close> and \<^verbatim>\<open>groupBy\<close> are arrays.
  The counter of a fresh builder is the one left by \<^verbatim>\<open>alias: getAlias()\<close>.
\<close>

record state =
  type_st :: query_type
  select_st :: "jsval list"
  count_st :: jsval
  first_st :: bool
  data_st :: jsval
  where_st :: "jsval list"
  joins_st :: "jsval list"
  populate_st :: jsval
  limit_st :: jsval
  offset_st :: jsval
  orderBy_st :: "jsval list"
  groupBy_st :: "jsval list"
  search_st :: jsval
  counter_st :: nat

definition initial_state :: state where
  "initial_state = \<lparr>
     type_st = Select, select_st = [], count_st = JNull, first_st = False, data_st = JNull,
     where_st = [], joins_st = [], populate_st = JNull, limit_st = JNull, offset_st = JNull,
     orderBy_st = [], groupBy_st = [], search_st = JUndefined,
     counter_st = snd (getAlias 0) \<rparr>"

subsection \<open>The setters\<close>

definition select :: "jsval \<Rightarrow> state \<Rightarrow> state" where
  "select args s = s\<lparr>type_st := Select, select_st := uniq (castArray args)\<rparr>"

definition addSelect :: "jsval \<Rightarrow> state \<Rightarrow> state" where
  "addSelect args s = s\<lparr>select_st := uniq (select_st s @ castArray args)\<rparr>"

definition insert_qb :: "jsval \<Rightarrow> state \<Rightarrow> state" where
  "insert_qb d s = s\<lparr>type_st := Insert, data_st := d\<rparr>"

definition delete :: "state \<Rightarrow> state" where
  "delete s = s\<lparr>type_st := Delete\<rparr>"

definition update :: "jsval \<Rightarrow> state \<Rightarrow> state" where
  "update d s = s\<lparr>type_st := Update, data_st := d\<rparr>"

text \<open>\<^verbatim>\<open>count(count = '*')\<close>: the default replaces an undefined argument.\<close>

definition count :: "jsval \<Rightarrow> state \<Rightarrow> state" where
  "count c s = s\<lparr>type_st := Count, count_st := (if c = JUndefined then JStr ''*'' else c)\<rparr>"

text \<open>\<^verbatim>\<open>where(where = {})\<close>: the default replaces an undefined argument; then the check,
  then the push. The object literal of the default is a new object at every call; its
  reference is never compared (only the selected columns go through \<^verbatim>\<open>_.uniq\<close>), and the
  model writes 0 for it.\<close>

definition emptyObject :: jsval where
  "emptyObject = JObj 0 []"

definition where_qb :: "jsval \<Rightarrow> state \<Rightarrow> error + state" where
  "where_qb w s =
     (let w' = (if w = JUndefined then emptyObject else w) in
      if \<not> isPlainObject w' then Inl (Error ''Where must be an object'')
      else Inr (s\<lparr>where_st := where_st s @ [w']\<rparr>))"

definition limit :: "jsval \<Rightarrow> state \<Rightarrow> state" where
  "limit l s = s\<lparr>limit_st := l\<rparr>"

definition offset :: "jsval \<Rightarrow> state \<Rightarrow> state" where
  "offset off s = s\<lparr>offset_st := off\<rparr>"

definition orderBy :: "jsval list \<Rightarrow> state \<Rightarrow> state" where
  "orderBy ob s = s\<lparr>orderBy_st := ob\<rparr>"

definition groupBy :: "jsval list \<Rightarrow> state \<Rightarrow> state" where
  "groupBy gb s = s\<lparr>groupBy_st := gb\<rparr>"

definition populate :: "jsval \<Rightarrow> state \<Rightarrow> state" where
  "populate p s = s\<lparr>populate_st := p\<rparr>"

definition search :: "jsval \<Rightarrow> state \<Rightarrow> state" where
  "search q s = s\<lparr>search_st := q\<rparr>"

definition first :: "state \<Rightarrow> state" where
  "first s = s\<lparr>first_st := True\<rparr>"

definition join :: "jsval \<Rightarrow> state \<Rightarrow> state" where
  "join j s = s\<lparr>joins_st := joins_st s @ [j]\<rparr>"

text \<open>\<^verbatim>\<open>getAlias()\<close> on the builder: the alias it returns and the state with the counter
  advanced.\<close>

definition getAlias_qb :: "state \<Rightarrow> string \<times> state" where
  "getAlias_qb s = (fst (getAlias (counter_st s)), s\<lparr>counter_st := snd (getAlias (counter_st s))\<rparr>)"

subsection \<open>The column resolver\<close>

definition mustUseAlias :: "state \<Rightarrow> bool" where
  "mustUseAlias s = (type_st s \<in> set [Select, Count])"

text \<open>\<^verbatim>\<open>aliasColumn(columnName, alias)\<close>. The explicit alias is a string, or nil (\<open>None\<close>).\<close>

fun aliasColumn :: "state \<Rightarrow> jsval \<Rightarrow> string option \<Rightarrow> jsval" where
  "aliasColumn s (JStr columnName) a =
     (if indexOf columnName CHR ''.'' \<ge> 0 then JStr columnName
      else (case a of
              Some al \<Rightarrow> JStr (al @ ''.'' @ columnName)
            | None \<Rightarrow> (if mustUseAlias s then JStr (alias_qb @ ''.'' @ columnName) else JStr columnName)))"
| "aliasColumn s columnName a = columnName"

definition shouldUseSubQuery :: "state \<Rightarrow> bool" where
  "shouldUseSubQuery s = (type_st s \<in> set [Delete, Update] \<and> length (joins_st s) > 0)"

subsection \<open>The native query\<close>

text \<open>
  The knex query is an external object. Its model is the table it was created on and the
  list of the method calls made on it, in call order. \<open>KApplyWhere\<close>, \<open>KApplySearch\<close> and
  \<open>KApplyJoins\<close> stand for the calls of \<^verbatim>\<open>helpers.applyWhere\<close>, \<^verbatim>\<open>helpers.applySearch\<close> and
  \<^verbatim>\<open>helpers.applyJoins\<close> on the query; \<open>KWhere\<close> is \<^verbatim>\<open>qb.where(callback)\<close> with the calls the
  callback makes on its nested builder; \<open>KFrom q a\<close> is \<^verbatim>\<open>.from(q.as(a))\<close>;
  \<open>KCount (Some c)\<close> is \<^verbatim>\<open>qb.count({ count: c })\<close> and \<open>KCount None\<close> is \<^verbatim>\<open>count()\<close>.
\<close>

datatype knex_table = NoTable | Table string | AliasedTable string string

datatype knex_query = Knex knex_table "knex_call list"
and knex_call =
    KSelect "jsval list"
  | KDistinct jsval
  | KCount "jsval option"
  | KInsert jsval
  | KReturning string
  | KUpdate jsval
  | KDelete
  | KTruncate
  | KLimit jsval
  | KOffset jsval
  | KOrderBy "jsval list"
  | KFirst
  | KGroupBy "jsval list"
  | KApplyWhere "jsval list"
  | KWhere "knex_call list"
  | KApplySearch jsval string
  | KApplyJoins "jsval list"
  | KFrom knex_query string
  | KWhereIn string knex_query

fun table :: "knex_query \<Rightarrow> knex_table" where
  "table (Knex t cs) = t"

fun calls :: "knex_query \<Rightarrow> knex_call list" where
  "calls (Knex t cs) = cs"

text \<open>One more method call on the query.\<close>

fun call :: "knex_call \<Rightarrow> knex_query \<Rightarrow> knex_query" where
  "call c (Knex t cs) = Knex t (cs @ [c])"

text \<open>The calls made on \<^verbatim>\<open>db\<close> itself. \<^verbatim>\<open>db.truncate\<close> is defined outside this file: the
  model records the call and goes on.\<close>

datatype db_call = DbTruncate

subsection \<open>The builder as the processors see it\<close>

text \<open>
  \<^verbatim>\<open>processState\<close> hands each processor of \<^verbatim>\<open>./helpers\<close> the builder itself
  (\<^verbatim>\<open>{ qb: this, uid, db }\<close>). Through it a processor can call every setter, \<^verbatim>\<open>join\<close> and
  \<^verbatim>\<open>getAlias\<close>; a call of the builder made by a processor is a \<open>qb_call\<close>.
\<close>

datatype qb_call =
    CSelect jsval
  | CAddSelect jsval
  | CInsert jsval
  | CDelete
  | CUpdate jsval
  | CCount jsval
  | CWhere jsval
  | CLimit jsval
  | COffset jsval
  | COrderBy "jsval list"
  | CGroupBy "jsval list"
  | CPopulate jsval
  | CSearch jsval
  | CFirst
  | CJoin jsval
  | CGetAlias

fun applyCall :: "qb_call \<Rightarrow> state \<Rightarrow> error + state" where
  "applyCall (CSelect a) s = Inr (select a s)"
| "applyCall (CAddSelect a) s = Inr (addSelect a s)"
| "applyCall (CInsert d) s = Inr (insert_qb d s)"
| "applyCall CDelete s = Inr (delete s)"
| "applyCall (CUpdate d) s = Inr (update d s)"
| "applyCall (CCount c) s = Inr (count c s)"
| "applyCall (CWhere w) s = where_qb w s"
| "applyCall (CLimit l) s = Inr (limit l s)"
| "applyCall (COffset off) s = Inr (offset off s)"
| "applyCall (COrderBy ob) s = Inr (orderBy ob s)"
| "applyCall (CGroupBy gb) s = Inr (groupBy gb s)"
| "applyCall (CPopulate p) s = Inr (populate p s)"
| "applyCall (CSearch q) s = Inr (search q s)"
| "applyCall CFirst s = Inr (first s)"
| "applyCall (CJoin j) s = Inr (join j s)"
| "applyCall CGetAlias s = Inr (snd (getAlias_qb s))"

text \<open>A list of calls in order; the first call that throws ends it.\<close>

fun applyCalls :: "qb_call list \<Rightarrow> state \<Rightarrow> error + state" where
  "applyCalls [] s = Inr s"
| "applyCalls (c # cs) s = (case applyCall c s of Inl e \<Rightarrow> Inl e | Inr s' \<Rightarrow> applyCalls cs s')"

text \<open>
  What a processor can read of the builder without compiling it: the kind
  (\<^verbatim>\<open>mustUseAlias\<close>, \<^verbatim>\<open>aliasColumn\<close>, \<^verbatim>\<open>shouldUseSubQuery\<close>), whether there are joins
  (\<^verbatim>\<open>shouldUseSubQuery\<close>), and the alias counter (\<^verbatim>\<open>getAlias\<close>). The builder has no method
  that returns another field.
\<close>

record view =
  kind_v :: query_type
  hasJoins_v :: bool
  counter_v :: nat

definition viewOf :: "state \<Rightarrow> view" where
  "viewOf s = \<lparr> kind_v = type_st s, hasJoins_v = (length (joins_st s) > 0), counter_v = counter_st s \<rparr>"

subsection \<open>The surroundings of a builder\<close>

text \<open>
  What \<^verbatim>\<open>createQueryBuilder(uid, db)\<close> closes over: the metadata of the entity
  (\<^verbatim>\<open>meta.tableName\<close>, \<^verbatim>\<open>meta.attributes\<close>), the answer of \<^verbatim>\<open>db.dialect.useReturning()\<close>,
  and the three processors of \<^verbatim>\<open>./helpers\<close>, which are parameters here. A processor is any
  function from the raw descriptor and what it can read of the builder to either an error
  (it throws) or the processed descriptor together with the calls it has made on the
  builder, in order. A processor that compiles the builder it is processing
  (\<^verbatim>\<open>getKnexQuery\<close>, \<^verbatim>\<open>execute\<close>, \<^verbatim>\<open>processState\<close>) is outside this model.
\<close>

record env =
  tableName :: string
  attributes :: jsval
  useReturning :: bool
  processOrderBy :: "jsval list \<Rightarrow> view \<Rightarrow> error + (jsval list \<times> qb_call list)"
  processWhere :: "jsval list \<Rightarrow> view \<Rightarrow> error + (jsval list \<times> qb_call list)"
  processPopulate :: "jsval \<Rightarrow> view \<Rightarrow> error + (jsval \<times> qb_call list)"

subsection \<open>Compilation\<close>

text \<open>One call of a processor on the builder: the processor reads what it can, and the calls
  it has made change the state before it returns.\<close>

definition runProcessor :: "(view \<Rightarrow> error + ('d \<times> qb_call list)) \<Rightarrow> state \<Rightarrow> error + ('d \<times> state)" where
  "runProcessor p s =
     (case p (viewOf s) of
        Inl e \<Rightarrow> Inl e
      | Inr (d, cs) \<Rightarrow> (case applyCalls cs s of Inl e \<Rightarrow> Inl e | Inr s' \<Rightarrow> Inr (d, s')))"

text \<open>
  \<^verbatim>\<open>processState\<close>: three assignments \<^verbatim>\<open>state.x = helpers.processX(state.x, { qb: this, ... })\<close>.
  Each reads the raw descriptor, runs the processor, and then stores the processed
  descriptor in the state the processor has left.
\<close>

definition processState :: "env \<Rightarrow> state \<Rightarrow> error + state" where
  "processState env s =
     (case runProcessor (processOrderBy env (orderBy_st s)) s of
        Inl e \<Rightarrow> Inl e
      | Inr (ob, sa) \<Rightarrow>
          (let s1 = sa\<lparr>orderBy_st := ob\<rparr> in
           case runProcessor (processWhere env (where_st s1)) s1 of
             Inl e \<Rightarrow> Inl e
           | Inr (w, sb) \<Rightarrow>
               (let s2 = sb\<lparr>where_st := w\<rparr> in
                case runProcessor (processPopulate env (populate_st s2)) s2 of
                  Inl e \<Rightarrow> Inl e
                | Inr (p, sc) \<Rightarrow> Inr (sc\<lparr>populate_st := p\<rparr>))))"

text \<open>The \<^verbatim>\<open>switch (state.type)\<close> of \<^verbatim>\<open>getKnexQuery\<close>. The truncate case calls
  \<^verbatim>\<open>db.truncate()\<close> and makes no call on the query.\<close>

definition switchType :: "env \<Rightarrow> state \<Rightarrow> knex_query \<Rightarrow> error + (state \<times> db_call list \<times> knex_query)" where
  "switchType env s qb =
     (case type_st s of
        Select \<Rightarrow>
          (let s1 = (if length (select_st s) = 0 then s\<lparr>select_st := [JStr ''*'']\<rparr> else s) in
           if length (joins_st s1) > 0 \<and> groupBy_st s1 = [] then
             (let qb1 = call (KDistinct (aliasColumn s1 (JStr ''id'') None)) qb in
              case mapColumns (orderBy_st s1) of
                Inl e \<Rightarrow> Inl e
              | Inr cols \<Rightarrow>
                  (let s2 = s1\<lparr>select_st := cols @ select_st s1\<rparr> in
                   Inr (s2, [], call (KSelect (map (\<lambda>column. aliasColumn s2 column None) (select_st s2))) qb1)))
           else Inr (s1, [], call (KSelect (map (\<lambda>column. aliasColumn s1 column None) (select_st s1))) qb))
      | Count \<Rightarrow> Inr (s, [], call (KCount (Some (count_st s))) qb)
      | Insert \<Rightarrow>
          (let qb1 = call (KInsert (data_st s)) qb in
           if useReturning env \<and> has ''id'' (attributes env)
           then Inr (s, [], call (KReturning ''id'') qb1)
           else Inr (s, [], qb1))
      | Update \<Rightarrow> Inr (s, [], call (KUpdate (data_st s)) qb)
      | Delete \<Rightarrow> Inr (s, [], call KDelete qb)
      | Truncate \<Rightarrow> Inr (s, [DbTruncate], qb))"

text \<open>The clauses after the switch, in source order. \<^verbatim>\<open>state.where\<close> is an array, and an
  array is truthy also when it is empty: the test \<^verbatim>\<open>if (state.where)\<close> always holds.\<close>

definition applyClauses :: "state \<Rightarrow> knex_query \<Rightarrow> knex_query" where
  "applyClauses s qb =
     (let qb = (if truthy (limit_st s) then call (KLimit (limit_st s)) qb else qb);
          qb = (if truthy (offset_st s) then call (KOffset (offset_st s)) qb else qb);
          qb = (if length (orderBy_st s) > 0 then call (KOrderBy (orderBy_st s)) qb else qb);
          qb = (if first_st s then call KFirst qb else qb);
          qb = (if length (groupBy_st s) > 0 then call (KGroupBy (groupBy_st s)) qb else qb);
          qb = call (KApplyWhere (where_st s)) qb;
          qb = (if truthy (search_st s) then call (KWhere [KApplySearch (search_st s) alias_qb]) qb else qb);
          qb = (if length (joins_st s) > 0 then call (KApplyJoins (joins_st s)) qb else qb)
      in qb)"

text \<open>\<^verbatim>\<open>db.connection(tableName)[state.type]()\<close>: the method named by the kind, called
  without arguments.\<close>

fun methodCall :: "query_type \<Rightarrow> knex_call" where
  "methodCall Select = KSelect []"
| "methodCall Insert = KInsert JUndefined"
| "methodCall Update = KUpdate JUndefined"
| "methodCall Delete = KDelete"
| "methodCall Count = KCount None"
| "methodCall Truncate = KTruncate"

text \<open>
  \<^verbatim>\<open>getKnexQuery\<close> and \<^verbatim>\<open>runSubQuery\<close> call each other. The test \<^verbatim>\<open>if (!state.type)\<close> at the
  head of \<^verbatim>\<open>getKnexQuery\<close> never holds, since every kind is a non-empty string.
  The table and \<^verbatim>\<open>shouldUseSubQuery\<close> are read before \<^verbatim>\<open>processState\<close> runs, the switch and the
  clauses after it.
  \<^verbatim>\<open>runSubQuery\<close> reads \<^verbatim>\<open>state.type\<close> after \<^verbatim>\<open>this.select('id')\<close> and the nested
  compilation have run.
\<close>

function getKnexQuery :: "env \<Rightarrow> state \<Rightarrow> error + (state \<times> db_call list \<times> knex_query)"
  and runSubQuery :: "env \<Rightarrow> state \<Rightarrow> error + (state \<times> db_call list \<times> knex_query)" where
  "getKnexQuery env s =
     (let aliasedTableName =
            (if mustUseAlias s then AliasedTable alias_qb (tableName env) else Table (tableName env));
          qb = Knex aliasedTableName []
      in if shouldUseSubQuery s then runSubQuery env s
         else (case processState env s of
                 Inl e \<Rightarrow> Inl e
               | Inr s1 \<Rightarrow>
                   (case switchType env s1 qb of
                      Inl e \<Rightarrow> Inl e
                    | Inr (s2, dbs, qb2) \<Rightarrow> Inr (s2, dbs, applyClauses s2 qb2))))"
| "runSubQuery env s =
     (let s1 = select (JStr ''id'') s in
      case getKnexQuery env s1 of
        Inl e \<Rightarrow> Inl e
      | Inr (s2, dbs, subQB) \<Rightarrow>
          (let nestedSubQuery = call (KFrom subQB ''subQuery'') (call (KSelect [JStr ''id'']) (Knex NoTable []))
           in Inr (s2, dbs,
                   call (KWhereIn ''id'' nestedSubQuery)
                     (call (methodCall (type_st s2)) (Knex (Table (tableName env)) [])))))"
  by pat_completeness auto
termination
  by (relation "measure (\<lambda>x. case x of
          Inl (env, s) \<Rightarrow> (if shouldUseSubQuery s then 2 else 0)
        | Inr (env, s) \<Rightarrow> 1)")
     (auto simp: shouldUseSubQuery_def select_def)

declare getKnexQuery.simps [simp del] runSubQuery.simps [simp del]

subsection \<open>Clauses of the native query\<close>

text \<open>The kind a clause of the native query belongs to, if it is the clause of an operation.\<close>

fun clauseKind :: "knex_call \<Rightarrow> query_type option" where
  "clauseKind (KSelect cols) = Some Select"
| "clauseKind (KCount c) = Some Count"
| "clauseKind (KInsert d) = Some Insert"
| "clauseKind (KUpdate d) = Some Update"
| "clauseKind KDelete = Some Delete"
| "clauseKind KTruncate = Some Truncate"
| "clauseKind _ = None"

text \<open>The clauses the switch can emit: the operation itself, and the distinct and
  returning clauses that go with select and insert.\<close>

fun isSwitchClause :: "knex_call \<Rightarrow> bool" where
  "isSwitchClause (KSelect cols) = True"
| "isSwitchClause (KDistinct c) = True"
| "isSwitchClause (KCount c) = True"
| "isSwitchClause (KInsert d) = True"
| "isSwitchClause (KReturning c) = True"
| "isSwitchClause (KUpdate d) = True"
| "isSwitchClause KDelete = True"
| "isSwitchClause _ = False"

text \<open>The clauses after the switch as one list.\<close>

definition clauseList :: "state \<Rightarrow> knex_call list" where
  "clauseList s =
       (if truthy (limit_st s) then [KLimit (limit_st s)] else [])
     @ (if truthy (offset_st s) then [KOffset (offset_st s)] else [])
     @ (if orderBy_st s \<noteq> [] then [KOrderBy (orderBy_st s)] else [])
     @ (if first_st s then [KFirst] else [])
     @ (if groupBy_st s \<noteq> [] then [KGroupBy (groupBy_st s)] else [])
     @ [KApplyWhere (where_st s)]
     @ (if truthy (search_st s) then [KWhere [KApplySearch (search_st s) alias_qb]] else [])
     @ (if joins_st s \<noteq> [] then [KApplyJoins (joins_st s)] else [])"

text \<open>The compiled query alone, or the error.\<close>

definition compiled :: "error + (state \<times> db_call list \<times> knex_query) \<Rightarrow> error + knex_query" where
  "compiled r = (case r of Inl e \<Rightarrow> Inl e | Inr (s, dbs, q) \<Rightarrow> Inr q)"

subsection \<open>The specification of the selected columns\<close>

text \<open>All the columns asked for by a list of builder calls, in call order, where a
  \<^verbatim>\<open>select\<close> starts over and calls other than \<^verbatim>\<open>select\<close> and \<^verbatim>\<open>addSelect\<close> ask for none:\<close>

fun requested :: "qb_call list \<Rightarrow> jsval list \<Rightarrow> jsval list" where
  "requested [] acc = acc"
| "requested (CSelect a # cs) acc = requested cs (castArray a)"
| "requested (CAddSelect a # cs) acc = requested cs (acc @ castArray a)"
| "requested (c # cs) acc = requested cs acc"

text \<open>The specification's deduplication, "deduplicated and preserves first-seen order":
  every value stays at its first occurrence and its later occurrences are dropped.\<close>

function firstSeen :: "jsval list \<Rightarrow> jsval list" where
  "firstSeen [] = []"
| "firstSeen (x # xs) = x # firstSeen (filter (\<lambda>y. \<not> sameValueZero x y) xs)"
  by pat_completeness auto
termination
  by (relation "measure length") (auto simp: less_Suc_eq_le)

text \<open>A list is deduplicated when no two of its entries are the same value.\<close>

definition deduplicated :: "jsval list \<Rightarrow> bool" where
  "deduplicated xs = distinct (map identity xs)"

subsection \<open>Concrete builders\<close>

text \<open>An entity \<^verbatim>\<open>users\<close> with an \<^verbatim>\<open>id\<close> attribute on a dialect that supports returning, with
  processors that return their descriptor as it is and leave the builder alone.\<close>

definition example_env :: env where
  "example_env = \<lparr> tableName = ''users'',
     attributes = JObj 1 [(''id'', JStr ''increments''), (''name'', JStr ''string'')],
     useReturning = True,
     processOrderBy = (\<lambda>ob v. Inr (ob, [])),
     processWhere = (\<lambda>w v. Inr (w, [])),
     processPopulate = (\<lambda>p v. Inr (p, [])) \<rparr>"

text \<open>The same entity on a dialect without returning.\<close>

definition example_env_no_returning :: env where
  "example_env_no_returning = example_env\<lparr>useReturning := False\<rparr>"

text \<open>The same entity with a where-processor that turns every filter into a join under a
  fresh alias, and a populate-processor that adds the \<open>id\<close> column.\<close>

definition example_join :: jsval where
  "example_join = JObj 2 [(''alias'', JStr ''t1''), (''referencedTable'', JStr ''posts'')]"

definition example_env_joining :: env where
  "example_env_joining = example_env\<lparr>
     processWhere := (\<lambda>w v. Inr (w, if w = [] then [] else [CGetAlias, CJoin example_join])),
     processPopulate := (\<lambda>p v. Inr (p, [CAddSelect (JStr ''id'')])) \<rparr>"

text \<open>A filter, and an order-by entry as the order-by processor leaves it.\<close>

definition example_filter :: jsval where
  "example_filter = JObj 3 [(''age'', JObj 4 [(''$gt'', JNum 18)])]"

definition example_order :: jsval where
  "example_order = JObj 5 [(''column'', JStr ''t0.age''), (''order'', JStr ''desc'')]"

text \<open>A select with a filter, a join, paging, ordering and a search term.\<close>

definition example_select :: state where
  "example_select = initial_state\<lparr>
      select_st := [JStr ''name''],
      where_st := [example_filter],
      joins_st := [example_join],
      limit_st := JNum 10, offset_st := JNum 5,
      orderBy_st := [example_order],
      first_st := True,
      search_st := JStr ''bob'' \<rparr>"

text \<open>The same select without the join, and with a group-by.\<close>

definition example_select_no_join :: state where
  "example_select_no_join = example_select\<lparr>joins_st := []\<rparr>"


text \<open>The insert of the round trip, \<^verbatim>\<open>insert({name: "a"})\<close> on a fresh builder.\<close>

definition example_insert :: state where
  "example_insert = insert_qb (JObj 6 [(''name'', JStr ''a'')]) initial_state"

text \<open>A select followed by two addSelect calls and a limit, with repeated columns: strings
  repeated by value, one object given twice, and two objects with the same content.\<close>

definition example_select_calls :: "qb_call list" where
  "example_select_calls =
     [CSelect (JArr 7 [JStr ''name'', JObj 8 [(''a'', JNum 1)], JStr ''name'']),
      CAddSelect (JStr ''age''),
      CLimit (JNum 10),
      CAddSelect (JArr 9 [JObj 8 [(''a'', JNum 1)], JObj 10 [(''a'', JNum 1)], JStr ''id''])]"

text \<open>\<^verbatim>\<open>delete()\<close>, \<^verbatim>\<open>where(filter)\<close>, \<^verbatim>\<open>join(j)\<close> on a fresh builder, and the same with
  \<^verbatim>\<open>update({name: "a"})\<close>.\<close>

definition example_delete :: state where
  "example_delete = join example_join ((delete initial_state)\<lparr>where_st := [example_filter]\<rparr>)"

definition example_update :: state where
  "example_update =
     join example_join ((update (JObj 6 [(''name'', JStr ''a'')]) initial_state)\<lparr>where_st := [example_filter]\<rparr>)"

text \<open>\<^verbatim>\<open>select('name')\<close>, \<^verbatim>\<open>join(j)\<close>, \<^verbatim>\<open>delete()\<close> on a fresh builder.\<close>

definition example_kind_calls :: "qb_call list" where
  "example_kind_calls = [CSelect (JStr ''name''), CJoin example_join, CDelete]"

text \<open>What the joining processors make of the select without join: a join, an advanced
  counter and the \<open>id\<close> column.\<close>

definition example_select_joined :: state where
  "example_select_joined = example_select_no_join\<lparr>
      joins_st := [example_join], counter_st := 2, select_st := [JStr ''name'', JStr ''id''] \<rparr>"


subsection \<open>Relations between states\<close>

text \<open>Two states that differ at most in a limit that is falsy in both and in an offset that
  is falsy in both.\<close>

definition samePaging :: "state \<Rightarrow> state \<Rightarrow> bool" where
  "samePaging s t =
     (t = s\<lparr>limit_st := limit_st t, offset_st := offset_st t\<rparr> \<and>
      (limit_st t = limit_st s \<or> (\<not> truthy (limit_st s) \<and> \<not> truthy (limit_st t))) \<and>
      (offset_st t = offset_st s \<or> (\<not> truthy (offset_st s) \<and> \<not> truthy (offset_st t))))"

text \<open>The outcome of a compilation up to the paging of the returned state.\<close>

definition sameResult ::
  "state \<times> db_call list \<times> knex_query \<Rightarrow> state \<times> db_call list \<times> knex_query \<Rightarrow> bool" where
  "sameResult x y = (samePaging (fst x) (fst y) \<and> snd y = snd x)"

section \<open>Properties\<close>

subsection \<open>Basic facts\<close>

lemma alias_qb_eq: "alias_qb = ''t0''"
  by (simp add: alias_qb_def getAlias_def)

lemma indexOf_ge_minus1: "indexOf xs c \<ge> -1"
  by (induction xs) (auto simp: Let_def)

lemma indexOf_found: "(indexOf xs c \<ge> 0) = (c \<in> set xs)"
proof (induction xs)
  case Nil
  show ?case by simp
next
  case (Cons x xs)
  have "indexOf xs c \<ge> -1" by (rule indexOf_ge_minus1)
  with Cons show ?case by (auto simp: Let_def)
qed

subsection \<open>The column resolver\<close>

text \<open>
  Claim C2. \<^verbatim>\<open>aliasColumn\<close> returns a non-string column unchanged; a string that contains
  the separator \<open>.\<close> unchanged; with an explicit alias it returns alias, separator, column;
  without one it returns the builder's alias, separator, column exactly when the kind is
  select or count, and the bare column for insert, update, delete and truncate.
\<close>

theorem aliasColumn_cases:
  "((\<forall>c. v \<noteq> JStr c) \<longrightarrow> aliasColumn s v a = v) \<and>
   (CHR ''.'' \<in> set c1 \<longrightarrow> aliasColumn s (JStr c1) a = JStr c1) \<and>
   (CHR ''.'' \<notin> set c2 \<longrightarrow> aliasColumn s (JStr c2) (Some al) = JStr (al @ ''.'' @ c2)) \<and>
   (CHR ''.'' \<notin> set c2 \<longrightarrow>
      (aliasColumn s (JStr c2) None = JStr (alias_qb @ ''.'' @ c2)) = (type_st s = Select \<or> type_st s = Count)) \<and>
   (type_st s2 \<in> {Insert, Update, Delete, Truncate} \<longrightarrow> aliasColumn s2 (JStr c3) None = JStr c3)"
proof (intro conjI impI)
  assume "\<forall>c. v \<noteq> JStr c"
  then show "aliasColumn s v a = v" by (cases v) auto
next
  assume "CHR ''.'' \<in> set c1"
  then show "aliasColumn s (JStr c1) a = JStr c1" by (simp add: indexOf_found)
next
  assume "CHR ''.'' \<notin> set c2"
  then show "aliasColumn s (JStr c2) (Some al) = JStr (al @ ''.'' @ c2)"
    by (simp add: indexOf_found)
next
  assume "CHR ''.'' \<notin> set c2"
  then show "(aliasColumn s (JStr c2) None = JStr (alias_qb @ ''.'' @ c2)) = (type_st s = Select \<or> type_st s = Count)"
    by (auto simp: indexOf_found mustUseAlias_def)
next
  assume "type_st s2 \<in> {Insert, Update, Delete, Truncate}"
  then show "aliasColumn s2 (JStr c3) None = JStr c3"
    by (auto simp: mustUseAlias_def)
qed

theorem aliasColumn_cases_witness:
  "(\<forall>c. JNum 7 \<noteq> JStr c) \<and> aliasColumn initial_state (JNum 7) None = JNum 7 \<and>
   CHR ''.'' \<in> set ''t1.name'' \<and> aliasColumn initial_state (JStr ''t1.name'') None = JStr ''t1.name'' \<and>
   CHR ''.'' \<notin> set ''name'' \<and> aliasColumn initial_state (JStr ''name'') (Some ''t3'') = JStr ''t3.name'' \<and>
   aliasColumn initial_state (JStr ''name'') None = JStr ''t0.name'' \<and>
   type_st (update (JObj 6 []) initial_state) \<in> {Insert, Update, Delete, Truncate} \<and>
   aliasColumn (update (JObj 6 []) initial_state) (JStr ''name'') None = JStr ''name''"
  using aliasColumn_cases [of "JNum 7" initial_state None "''t1.name''" "''name''" "''t3''"
      "update (JObj 6 []) initial_state" "''name''"]
  by (simp add: initial_state_def update_def alias_qb_eq)

subsection \<open>Compilation, step by step\<close>

lemma calls_call: "calls (call c q) = calls q @ [c]"
  by (cases q) simp

lemma table_call: "table (call c q) = table q"
  by (cases q) simp

lemma knex_query_eq: "q = Knex (table q) (calls q)"
  by (cases q) simp

lemma calls_applyClauses: "calls (applyClauses s qb) = calls qb @ clauseList s"
  by (simp add: applyClauses_def Let_def calls_call clauseList_def)

lemma table_applyClauses: "table (applyClauses s qb) = table qb"
  by (simp add: applyClauses_def Let_def table_call)

lemma applyClauses_eq: "applyClauses s qb = Knex (table qb) (calls qb @ clauseList s)"
  using knex_query_eq [of "applyClauses s qb"]
  by (simp add: calls_applyClauses table_applyClauses)

lemma getKnexQuery_direct:
  assumes "\<not> shouldUseSubQuery s"
  shows "getKnexQuery env s =
     (case processState env s of
        Inl e \<Rightarrow> Inl e
      | Inr s1 \<Rightarrow>
          (case switchType env s1
                  (Knex (if mustUseAlias s then AliasedTable alias_qb (tableName env)
                         else Table (tableName env)) []) of
             Inl e \<Rightarrow> Inl e
           | Inr (s2, dbs, qb2) \<Rightarrow> Inr (s2, dbs, applyClauses s2 qb2)))"
  using assms by (simp add: getKnexQuery.simps Let_def)

lemma getKnexQuery_sub:
  assumes "shouldUseSubQuery s"
  shows "getKnexQuery env s = runSubQuery env s"
  using assms by (simp add: getKnexQuery.simps Let_def)

text \<open>The switch changes the selected columns at most.\<close>

lemma switchType_keeps:
  assumes "switchType env s qb = Inr (s2, dbs, qb2)"
  shows "s2 = s\<lparr>select_st := select_st s2\<rparr>" and "table qb2 = table qb"
  using assms
  by (auto simp: switchType_def Let_def table_call split: query_type.splits if_splits sum.splits)

lemma switchType_clauseList:
  assumes "switchType env s qb = Inr (s2, dbs, qb2)"
  shows "clauseList s2 = clauseList s"
proof -
  have "clauseList (s\<lparr>select_st := select_st s2\<rparr>) = clauseList s"
    by (simp add: clauseList_def)
  then show ?thesis
    using switchType_keeps(1) [OF assms] by simp
qed

lemma switchType_calls:
  assumes "switchType env s qb = Inr (s2, dbs, qb2)"
  shows "\<exists>ops. calls qb2 = calls qb @ ops \<and> (\<forall>c\<in>set ops. isSwitchClause c)"
  using assms
  by (auto simp: switchType_def Let_def calls_call split: query_type.splits if_splits sum.splits)

lemma switchType_returns:
  assumes "mapColumns (orderBy_st s) = Inr cols"
  shows "\<exists>s2 dbs qb2. switchType env s qb = Inr (s2, dbs, qb2)"
  using assms by (auto simp: switchType_def Let_def split: query_type.splits)

lemma getKnexQuery_direct_Inr:
  assumes "\<not> shouldUseSubQuery s" and "getKnexQuery env s = Inr (s', dbs, q)"
  shows "\<exists>s1 qb2. processState env s = Inr s1 \<and>
           switchType env s1 (Knex (if mustUseAlias s then AliasedTable alias_qb (tableName env)
                         else Table (tableName env)) []) = Inr (s', dbs, qb2) \<and>
           q = applyClauses s' qb2"
  using assms(2) unfolding getKnexQuery_direct [OF assms(1)]
  by (auto split: sum.splits)

lemma example_env_simps:
  "tableName example_env = ''users''"
  "attributes example_env = JObj 1 [(''id'', JStr ''increments''), (''name'', JStr ''string'')]"
  "useReturning example_env = True"
  "processOrderBy example_env ob v = Inr (ob, [])"
  "processWhere example_env w v = Inr (w, [])"
  "processPopulate example_env p v = Inr (p, [])"
  by (simp_all add: example_env_def)

lemma processState_example: "processState example_env s = Inr s"
  by (simp add: processState_def runProcessor_def example_env_simps)

lemma example_env_joining_simps:
  "tableName example_env_joining = ''users''"
  "attributes example_env_joining = JObj 1 [(''id'', JStr ''increments''), (''name'', JStr ''string'')]"
  "useReturning example_env_joining = True"
  "processOrderBy example_env_joining ob v = Inr (ob, [])"
  "processWhere example_env_joining w v = Inr (w, if w = [] then [] else [CGetAlias, CJoin example_join])"
  "processPopulate example_env_joining p v = Inr (p, [CAddSelect (JStr ''id'')])"
  by (simp_all add: example_env_joining_def example_env_def)

lemma processState_example_joining:
  "processState example_env_joining example_select_no_join = Inr example_select_joined"
  by (simp add: processState_def runProcessor_def example_env_joining_simps example_select_joined_def
        example_select_no_join_def example_select_def initial_state_def
        getAlias_qb_def getAlias_def join_def addSelect_def uniq_def sameValueZero_def)

subsection \<open>The order of the clauses\<close>

text \<open>
  Claim C8. Every compilation that returns without taking the subquery path has made its
  calls on the native query in this order: the clauses of the switch, then limit, offset,
  order-by, first and group-by, then the processed where filters, then the search term as a
  nested where group of its own next to the filters, and the joins last. All of them are
  read from the state as the processors leave it. Such a compilation returns whenever the
  processors and the reading of the order-by columns do.
\<close>

theorem clauses_in_fixed_order:
  "(\<not> shouldUseSubQuery s \<and> getKnexQuery env s = Inr (s', dbs, q) \<longrightarrow>
      (\<exists>s1 ops. processState env s = Inr s1 \<and>
           (\<forall>c\<in>set ops. isSwitchClause c) \<and>
           calls q = ops
             @ (if truthy (limit_st s1) then [KLimit (limit_st s1)] else [])
             @ (if truthy (offset_st s1) then [KOffset (offset_st s1)] else [])
             @ (if orderBy_st s1 \<noteq> [] then [KOrderBy (orderBy_st s1)] else [])
             @ (if first_st s1 then [KFirst] else [])
             @ (if groupBy_st s1 \<noteq> [] then [KGroupBy (groupBy_st s1)] else [])
             @ [KApplyWhere (where_st s1)]
             @ (if truthy (search_st s1) then [KWhere [KApplySearch (search_st s1) alias_qb]] else [])
             @ (if joins_st s1 \<noteq> [] then [KApplyJoins (joins_st s1)] else []) \<and>
           (joins_st s1 \<noteq> [] \<longrightarrow> last (calls q) = KApplyJoins (joins_st s1)))) \<and>
   (\<not> shouldUseSubQuery s \<and> processState env s = Inr p \<and> mapColumns (orderBy_st p) = Inr cols \<longrightarrow>
      (\<exists>r. getKnexQuery env s = Inr r))"
proof (intro conjI impI; elim conjE)
  let ?qb = "Knex (if mustUseAlias s then AliasedTable alias_qb (tableName env)
                   else Table (tableName env)) []"
  assume ns: "\<not> shouldUseSubQuery s" and run: "getKnexQuery env s = Inr (s', dbs, q)"
  obtain s1 qb2 where ps: "processState env s = Inr s1"
    and sw: "switchType env s1 ?qb = Inr (s', dbs, qb2)"
    and q: "q = applyClauses s' qb2"
    using getKnexQuery_direct_Inr [OF ns run] by blast
  obtain ops where ops: "calls qb2 = ops" "\<forall>c\<in>set ops. isSwitchClause c"
    using switchType_calls [OF sw] by auto
  have eq: "calls q = ops
             @ (if truthy (limit_st s1) then [KLimit (limit_st s1)] else [])
             @ (if truthy (offset_st s1) then [KOffset (offset_st s1)] else [])
             @ (if orderBy_st s1 \<noteq> [] then [KOrderBy (orderBy_st s1)] else [])
             @ (if first_st s1 then [KFirst] else [])
             @ (if groupBy_st s1 \<noteq> [] then [KGroupBy (groupBy_st s1)] else [])
             @ [KApplyWhere (where_st s1)]
             @ (if truthy (search_st s1) then [KWhere [KApplySearch (search_st s1) alias_qb]] else [])
             @ (if joins_st s1 \<noteq> [] then [KApplyJoins (joins_st s1)] else [])"
    unfolding q calls_applyClauses ops(1) switchType_clauseList [OF sw]
    unfolding clauseList_def ..
  have lst: "joins_st s1 \<noteq> [] \<longrightarrow> last (calls q) = KApplyJoins (joins_st s1)"
    unfolding eq by simp
  show "\<exists>s1 ops. processState env s = Inr s1 \<and>
           (\<forall>c\<in>set ops. isSwitchClause c) \<and>
           calls q = ops
             @ (if truthy (limit_st s1) then [KLimit (limit_st s1)] else [])
             @ (if truthy (offset_st s1) then [KOffset (offset_st s1)] else [])
             @ (if orderBy_st s1 \<noteq> [] then [KOrderBy (orderBy_st s1)] else [])
             @ (if first_st s1 then [KFirst] else [])
             @ (if groupBy_st s1 \<noteq> [] then [KGroupBy (groupBy_st s1)] else [])
             @ [KApplyWhere (where_st s1)]
             @ (if truthy (search_st s1) then [KWhere [KApplySearch (search_st s1) alias_qb]] else [])
             @ (if joins_st s1 \<noteq> [] then [KApplyJoins (joins_st s1)] else []) \<and>
           (joins_st s1 \<noteq> [] \<longrightarrow> last (calls q) = KApplyJoins (joins_st s1))"
    by (intro exI [of _ s1] exI [of _ ops] conjI ps ops(2) eq lst)
next
  let ?qb = "Knex (if mustUseAlias s then AliasedTable alias_qb (tableName env)
                   else Table (tableName env)) []"
  assume ns: "\<not> shouldUseSubQuery s" and ps: "processState env s = Inr p"
    and mc: "mapColumns (orderBy_st p) = Inr cols"
  obtain s2 dbs2 qb2 where sw: "switchType env p ?qb = Inr (s2, dbs2, qb2)"
    using switchType_returns [OF mc] by blast
  have "getKnexQuery env s = Inr (s2, dbs2, applyClauses s2 qb2)"
    by (simp add: getKnexQuery_direct [OF ns] ps sw)
  then show "\<exists>r. getKnexQuery env s = Inr r" by blast
qed

lemma getKnexQuery_example_joining:
  "getKnexQuery example_env_joining example_select_no_join =
     Inr (example_select_joined\<lparr>select_st := [JStr ''t0.age'', JStr ''name'', JStr ''id'']\<rparr>, [],
      Knex (AliasedTable ''t0'' ''users'')
        [KDistinct (JStr ''t0.id''), KSelect [JStr ''t0.age'', JStr ''t0.name'', JStr ''t0.id''],
         KLimit (JNum 10), KOffset (JNum 5), KOrderBy [example_order], KFirst,
         KApplyWhere [example_filter],
         KWhere [KApplySearch (JStr ''bob'') ''t0''],
         KApplyJoins [example_join]])"
proof -
  have ns: "\<not> shouldUseSubQuery example_select_no_join"
    by (simp add: shouldUseSubQuery_def example_select_no_join_def example_select_def initial_state_def)
  have mu: "mustUseAlias example_select_no_join"
    by (simp add: mustUseAlias_def example_select_no_join_def example_select_def initial_state_def)
  show ?thesis
    unfolding getKnexQuery_direct [OF ns] processState_example_joining
    by (simp add: mu switchType_def applyClauses_def example_select_joined_def
        example_select_no_join_def example_select_def initial_state_def mustUseAlias_def
        alias_qb_eq example_env_joining_simps example_order_def)
qed

theorem clauses_in_fixed_order_witness:
  "\<not> shouldUseSubQuery example_select_no_join \<and>
   joins_st example_select_no_join = [] \<and>
   processState example_env_joining example_select_no_join = Inr example_select_joined \<and>
   mapColumns (orderBy_st example_select_joined) = Inr [JStr ''t0.age''] \<and>
   (\<exists>s' dbs. getKnexQuery example_env_joining example_select_no_join = Inr (s', dbs,
      Knex (AliasedTable ''t0'' ''users'')
        [KDistinct (JStr ''t0.id''), KSelect [JStr ''t0.age'', JStr ''t0.name'', JStr ''t0.id''],
         KLimit (JNum 10), KOffset (JNum 5), KOrderBy [example_order], KFirst,
         KApplyWhere [example_filter],
         KWhere [KApplySearch (JStr ''bob'') ''t0''],
         KApplyJoins [example_join]]))"
proof -
  let ?s' = "example_select_joined\<lparr>select_st := [JStr ''t0.age'', JStr ''name'', JStr ''id'']\<rparr>"
  let ?q = "Knex (AliasedTable ''t0'' ''users'')
        [KDistinct (JStr ''t0.id''), KSelect [JStr ''t0.age'', JStr ''t0.name'', JStr ''t0.id''],
         KLimit (JNum 10), KOffset (JNum 5), KOrderBy [example_order], KFirst,
         KApplyWhere [example_filter],
         KWhere [KApplySearch (JStr ''bob'') ''t0''],
         KApplyJoins [example_join]]"
  have h1: "\<not> shouldUseSubQuery example_select_no_join" "joins_st example_select_no_join = []"
    by (simp_all add: shouldUseSubQuery_def example_select_no_join_def example_select_def initial_state_def)
  have h2: "processState example_env_joining example_select_no_join = Inr example_select_joined"
    by (rule processState_example_joining)
  have h3: "mapColumns (orderBy_st example_select_joined) = Inr [JStr ''t0.age'']"
    by (simp add: example_select_joined_def example_select_no_join_def example_select_def
        initial_state_def example_order_def)
  have run: "getKnexQuery example_env_joining example_select_no_join = Inr (?s', [], ?q)"
    by (rule getKnexQuery_example_joining)
  show ?thesis
    using h1 h2 h3 run
      clauses_in_fixed_order [of example_select_no_join example_env_joining ?s' "[]" ?q
        example_select_joined "[JStr ''t0.age'']"]
    by simp
qed

subsection \<open>The where setter\<close>

text \<open>
  Claim C6, as stated: \<^verbatim>\<open>where\<close> raises if and only if its input is not a plain object.
  This fails at undefined, which is not a plain object: the default parameter
  \<^verbatim>\<open>where = {}\<close> replaces it by the empty object, and the empty filter is appended.
\<close>

theorem where_iff_counterexample:
  "\<not> isPlainObject JUndefined \<and>
   where_qb JUndefined initial_state = Inr (initial_state\<lparr>where_st := [emptyObject]\<rparr>)"
  by (simp add: where_qb_def initial_state_def emptyObject_def)

text \<open>
  Claim C6, amended. \<^verbatim>\<open>where\<close> raises, at the call itself, if and only if its input is
  neither undefined nor a plain object, and the error is \<open>Where must be an object\<close>. A plain
  object is appended to the filters already there, an undefined input is appended as the
  empty object, and no other field of the state changes.
\<close>

theorem where_appends_or_raises:
  "((\<exists>e. where_qb w s = Inl e) = (w \<noteq> JUndefined \<and> \<not> isPlainObject w)) \<and>
   (w \<noteq> JUndefined \<and> \<not> isPlainObject w \<longrightarrow> where_qb w s = Inl (Error ''Where must be an object'')) \<and>
   (isPlainObject w \<longrightarrow> where_qb w s = Inr (s\<lparr>where_st := where_st s @ [w]\<rparr>)) \<and>
   (w = JUndefined \<longrightarrow> where_qb w s = Inr (s\<lparr>where_st := where_st s @ [emptyObject]\<rparr>))"
  by (cases w) (auto simp: where_qb_def emptyObject_def)

theorem where_appends_or_raises_witness:
  "JArr 11 [] \<noteq> JUndefined \<and> \<not> isPlainObject (JArr 11 []) \<and>
   where_qb (JArr 11 []) example_select = Inl (Error ''Where must be an object'') \<and>
   isPlainObject (JObj 6 [(''name'', JStr ''a'')]) \<and>
   where_qb (JObj 6 [(''name'', JStr ''a'')]) example_select =
     Inr (example_select\<lparr>where_st := [example_filter, JObj 6 [(''name'', JStr ''a'')]]\<rparr>) \<and>
   where_qb JUndefined example_select =
     Inr (example_select\<lparr>where_st := [example_filter, emptyObject]\<rparr>)"
  using where_appends_or_raises [of "JArr 11 []" example_select]
    where_appends_or_raises [of "JObj 6 [(''name'', JStr ''a'')]" example_select]
    where_appends_or_raises [of JUndefined example_select]
  by (simp add: example_select_def initial_state_def)

subsection \<open>Insert and the returning clause\<close>

lemma switchType_Insert:
  assumes "type_st s = Insert"
  shows "switchType env s qb = Inr (s, [],
           Knex (table qb) (calls qb @ [KInsert (data_st s)]
              @ (if useReturning env \<and> has ''id'' (attributes env) then [KReturning ''id''] else [])))"
  using assms by (cases qb) (simp add: switchType_def Let_def)

lemma example_env_no_returning_simps:
  "tableName example_env_no_returning = ''users''"
  "attributes example_env_no_returning = JObj 1 [(''id'', JStr ''increments''), (''name'', JStr ''string'')]"
  "useReturning example_env_no_returning = False"
  "processOrderBy example_env_no_returning ob v = Inr (ob, [])"
  "processWhere example_env_no_returning w v = Inr (w, [])"
  "processPopulate example_env_no_returning p v = Inr (p, [])"
  by (simp_all add: example_env_no_returning_def example_env_def)

lemma processState_example_no_returning: "processState example_env_no_returning s = Inr s"
  by (simp add: processState_def runProcessor_def example_env_no_returning_simps)

text \<open>
  Claim C7. An insert compiles, whenever the processors return, to the insert of the payload,
  followed by \<^verbatim>\<open>returning('id')\<close> if and only if the dialect uses returning and the
  metadata has an \<open>id\<close> attribute; no other clause of the query is a returning clause.
  The kind and the payload are the ones the switch finds, after the processors have run.
\<close>

theorem insert_returning_iff:
  assumes "\<not> shouldUseSubQuery s" and "processState env s = Inr s1" and "type_st s1 = Insert"
  shows "\<exists>s' dbs q rest. getKnexQuery env s = Inr (s', dbs, q) \<and>
           calls q = [KInsert (data_st s1)]
              @ (if useReturning env \<and> has ''id'' (attributes env) then [KReturning ''id''] else [])
              @ rest \<and>
           (\<forall>c\<in>set rest. \<not> isSwitchClause c) \<and>
           ((\<exists>c. KReturning c \<in> set (calls q)) = (useReturning env \<and> has ''id'' (attributes env)))"
proof -
  let ?qb = "Knex (if mustUseAlias s then AliasedTable alias_qb (tableName env)
                   else Table (tableName env)) []"
  let ?ret = "if useReturning env \<and> has ''id'' (attributes env) then [KReturning ''id''] else []"
  have sw: "switchType env s1 ?qb = Inr (s1, [], Knex (table ?qb) ([KInsert (data_st s1)] @ ?ret))"
    using switchType_Insert [OF assms(3), of env ?qb] by simp
  have run: "getKnexQuery env s = Inr (s1, [], applyClauses s1 (Knex (table ?qb) ([KInsert (data_st s1)] @ ?ret)))"
    by (simp add: getKnexQuery_direct [OF assms(1)] assms(2) sw)
  have eq: "calls (applyClauses s1 (Knex (table ?qb) ([KInsert (data_st s1)] @ ?ret)))
              = [KInsert (data_st s1)] @ ?ret @ clauseList s1"
    unfolding calls_applyClauses by simp
  have rest: "\<forall>c\<in>set (clauseList s1). \<not> isSwitchClause c"
    by (auto simp: clauseList_def)
  have iff: "(\<exists>c. KReturning c \<in> set ([KInsert (data_st s1)] @ ?ret @ clauseList s1))
               = (useReturning env \<and> has ''id'' (attributes env))"
    by (auto simp: clauseList_def)
  show ?thesis
    using run eq rest iff by (intro exI conjI) (assumption | simp only:)+
qed

theorem insert_returning_iff_witness:
  "\<not> shouldUseSubQuery example_insert \<and>
   type_st example_insert = Insert \<and>
   processState example_env example_insert = Inr example_insert \<and>
   processState example_env_no_returning example_insert = Inr example_insert \<and>
   (\<exists>s' dbs q. getKnexQuery example_env example_insert = Inr (s', dbs, q) \<and>
       KReturning ''id'' \<in> set (calls q)) \<and>
   (\<exists>s' dbs q. getKnexQuery example_env_no_returning example_insert = Inr (s', dbs, q) \<and>
       (\<forall>c. KReturning c \<notin> set (calls q)))"
proof -
  have h0: "\<not> shouldUseSubQuery example_insert"
    by (simp add: example_insert_def insert_qb_def shouldUseSubQuery_def)
  have h1: "type_st example_insert = Insert"
    by (simp add: example_insert_def insert_qb_def)
  have h2: "processState example_env example_insert = Inr example_insert"
    by (rule processState_example)
  have h3: "processState example_env_no_returning example_insert = Inr example_insert"
    by (rule processState_example_no_returning)
  have a: "\<exists>s' dbs q. getKnexQuery example_env example_insert = Inr (s', dbs, q) \<and>
       KReturning ''id'' \<in> set (calls q)"
    using insert_returning_iff [OF h0 h2 h1] by (auto simp: example_env_simps)
  have b: "\<exists>s' dbs q. getKnexQuery example_env_no_returning example_insert = Inr (s', dbs, q) \<and>
       (\<forall>c. KReturning c \<notin> set (calls q))"
    using insert_returning_iff [OF h0 h3 h1] by (auto simp: example_env_no_returning_simps)
  show ?thesis using h0 h1 h2 h3 a b by simp
qed

subsection \<open>Select with joins\<close>

lemma aliasColumn_type:
  assumes "type_st s' = type_st s"
  shows "aliasColumn s' c al = aliasColumn s c al"
  using assms by (cases c) (simp_all add: mustUseAlias_def)

lemma switchType_Select:
  assumes "type_st s = Select"
  shows "switchType env s qb =
     (let base = (if select_st s = [] then [JStr ''*''] else select_st s) in
      if joins_st s \<noteq> [] \<and> groupBy_st s = [] then
        (case mapColumns (orderBy_st s) of
           Inl e \<Rightarrow> Inl e
         | Inr cols \<Rightarrow>
             Inr (s\<lparr>select_st := cols @ base\<rparr>, [],
                  Knex (table qb) (calls qb @ [KDistinct (JStr (alias_qb @ ''.id'')),
                     KSelect (map (\<lambda>column. aliasColumn s column None) (cols @ base))])))
      else Inr (s\<lparr>select_st := base\<rparr>, [],
                Knex (table qb) (calls qb @ [KSelect (map (\<lambda>column. aliasColumn s column None) base)])))"
proof -
  have al: "aliasColumn (s\<lparr>select_st := x\<rparr>) c None = aliasColumn s c None" for x c
    by (rule aliasColumn_type) simp
  show ?thesis
    using assms
    by (cases qb) (auto simp: switchType_def Let_def al mustUseAlias_def split: sum.splits)
qed




subsection \<open>Limit and offset\<close>

lemma samePaging_refl: "samePaging s s"
  by (simp add: samePaging_def)

lemma samePaging_fields:
  assumes "samePaging s t"
  shows "type_st t = type_st s" "joins_st t = joins_st s" "counter_st t = counter_st s"
    "orderBy_st t = orderBy_st s" "where_st t = where_st s" "populate_st t = populate_st s"
    "select_st t = select_st s" "groupBy_st t = groupBy_st s"
proof -
  have "t = s\<lparr>limit_st := limit_st t, offset_st := offset_st t\<rparr>"
    using assms by (simp add: samePaging_def)
  then obtain a b where t: "t = s\<lparr>limit_st := a, offset_st := b\<rparr>" by blast
  show "type_st t = type_st s" "joins_st t = joins_st s" "counter_st t = counter_st s"
    "orderBy_st t = orderBy_st s" "where_st t = where_st s" "populate_st t = populate_st s"
    "select_st t = select_st s" "groupBy_st t = groupBy_st s"
    unfolding t by simp_all
qed

lemma samePaging_viewOf: "samePaging s t \<Longrightarrow> viewOf t = viewOf s"
  by (simp add: viewOf_def samePaging_fields)

lemma samePaging_I:
  assumes "t = s\<lparr>limit_st := a, offset_st := b\<rparr>"
    and "a = limit_st s \<or> (\<not> truthy (limit_st s) \<and> \<not> truthy a)"
    and "b = offset_st s \<or> (\<not> truthy (offset_st s) \<and> \<not> truthy b)"
  shows "samePaging s t"
  using assms by (simp add: samePaging_def)

lemma samePaging_D:
  assumes "samePaging s t"
  shows "\<exists>a b. t = s\<lparr>limit_st := a, offset_st := b\<rparr> \<and>
           (a = limit_st s \<or> (\<not> truthy (limit_st s) \<and> \<not> truthy a)) \<and>
           (b = offset_st s \<or> (\<not> truthy (offset_st s) \<and> \<not> truthy b))"
proof -
  have "t = s\<lparr>limit_st := limit_st t, offset_st := offset_st t\<rparr>"
    and "limit_st t = limit_st s \<or> (\<not> truthy (limit_st s) \<and> \<not> truthy (limit_st t))"
    and "offset_st t = offset_st s \<or> (\<not> truthy (offset_st s) \<and> \<not> truthy (offset_st t))"
    using assms by (simp_all add: samePaging_def)
  then show ?thesis by blast
qed

lemma applyCall_samePaging:
  assumes "samePaging s t"
  shows "rel_sum (=) samePaging (applyCall c s) (applyCall c t)"
proof -
  obtain a b where t: "t = s\<lparr>limit_st := a, offset_st := b\<rparr>"
    and a: "a = limit_st s \<or> (\<not> truthy (limit_st s) \<and> \<not> truthy a)"
    and b: "b = offset_st s \<or> (\<not> truthy (offset_st s) \<and> \<not> truthy b)"
    using samePaging_D [OF assms] by blast
  note setters = select_def addSelect_def insert_qb_def delete_def update_def count_def
    limit_def offset_def orderBy_def groupBy_def populate_def search_def first_def join_def
    getAlias_qb_def
  show ?thesis
  proof (cases c)
    case (CWhere w)
    show ?thesis
      unfolding CWhere t using a b
      by (simp add: where_qb_def Let_def samePaging_def)
  next
    case (CLimit l)
    show ?thesis
      unfolding CLimit t using b
      by (simp add: limit_def samePaging_def)
  next
    case (COffset off)
    show ?thesis
      unfolding COffset t using a
      by (simp add: offset_def samePaging_def)
  qed (simp_all add: t setters samePaging_def a b)
qed

lemma applyCalls_samePaging:
  assumes "samePaging s t"
  shows "rel_sum (=) samePaging (applyCalls cs s) (applyCalls cs t)"
  using assms
proof (induction cs arbitrary: s t)
  case Nil
  then show ?case by simp
next
  case (Cons c cs)
  show ?case
  proof (cases "applyCall c s")
    case (Inl e)
    then show ?thesis
      using applyCall_samePaging [OF Cons.prems, of c] by (cases "applyCall c t") simp_all
  next
    case (Inr s')
    then obtain t' where t': "applyCall c t = Inr t'" "samePaging s' t'"
      using applyCall_samePaging [OF Cons.prems, of c] by (cases "applyCall c t") simp_all
    show ?thesis
      using Cons.IH [OF t'(2)] by (simp add: Inr t'(1))
  qed
qed

lemma runProcessor_samePaging:
  assumes "samePaging s t"
  shows "rel_sum (=) (\<lambda>(d, s') (d', t'). d' = d \<and> samePaging s' t') (runProcessor p s) (runProcessor p t)"
proof (cases "p (viewOf s)")
  case (Inl e)
  then show ?thesis
    by (simp add: runProcessor_def samePaging_viewOf [OF assms])
next
  case (Inr r)
  obtain d cs where r: "r = (d, cs)" by (cases r)
  show ?thesis
    using applyCalls_samePaging [OF assms, of cs]
    by (cases "applyCalls cs s"; cases "applyCalls cs t")
       (simp_all add: runProcessor_def samePaging_viewOf [OF assms] Inr r)
qed

lemma samePaging_orderBy:
  assumes "samePaging s t"
  shows "samePaging (s\<lparr>orderBy_st := x\<rparr>) (t\<lparr>orderBy_st := x\<rparr>)"
proof -
  obtain a b where t: "t = s\<lparr>limit_st := a, offset_st := b\<rparr>"
    and a: "a = limit_st s \<or> (\<not> truthy (limit_st s) \<and> \<not> truthy a)"
    and b: "b = offset_st s \<or> (\<not> truthy (offset_st s) \<and> \<not> truthy b)"
    using samePaging_D [OF assms] by blast
  show ?thesis
    by (rule samePaging_I [where a = a and b = b]) (simp_all add: t a b)
qed

lemma samePaging_where:
  assumes "samePaging s t"
  shows "samePaging (s\<lparr>where_st := x\<rparr>) (t\<lparr>where_st := x\<rparr>)"
proof -
  obtain a b where t: "t = s\<lparr>limit_st := a, offset_st := b\<rparr>"
    and a: "a = limit_st s \<or> (\<not> truthy (limit_st s) \<and> \<not> truthy a)"
    and b: "b = offset_st s \<or> (\<not> truthy (offset_st s) \<and> \<not> truthy b)"
    using samePaging_D [OF assms] by blast
  show ?thesis
    by (rule samePaging_I [where a = a and b = b]) (simp_all add: t a b)
qed

lemma samePaging_populate:
  assumes "samePaging s t"
  shows "samePaging (s\<lparr>populate_st := x\<rparr>) (t\<lparr>populate_st := x\<rparr>)"
proof -
  obtain a b where t: "t = s\<lparr>limit_st := a, offset_st := b\<rparr>"
    and a: "a = limit_st s \<or> (\<not> truthy (limit_st s) \<and> \<not> truthy a)"
    and b: "b = offset_st s \<or> (\<not> truthy (offset_st s) \<and> \<not> truthy b)"
    using samePaging_D [OF assms] by blast
  show ?thesis
    by (rule samePaging_I [where a = a and b = b]) (simp_all add: t a b)
qed

lemma samePaging_select:
  assumes "samePaging s t"
  shows "samePaging (s\<lparr>select_st := x\<rparr>) (t\<lparr>select_st := x\<rparr>)"
proof -
  obtain a b where t: "t = s\<lparr>limit_st := a, offset_st := b\<rparr>"
    and a: "a = limit_st s \<or> (\<not> truthy (limit_st s) \<and> \<not> truthy a)"
    and b: "b = offset_st s \<or> (\<not> truthy (offset_st s) \<and> \<not> truthy b)"
    using samePaging_D [OF assms] by blast
  show ?thesis
    by (rule samePaging_I [where a = a and b = b]) (simp_all add: t a b)
qed

lemma processState_eq:
  "processState env s =
     (case runProcessor (processOrderBy env (orderBy_st s)) s of
        Inl e \<Rightarrow> Inl e
      | Inr (ob, sa) \<Rightarrow>
          (case runProcessor (processWhere env (where_st sa)) (sa\<lparr>orderBy_st := ob\<rparr>) of
             Inl e \<Rightarrow> Inl e
           | Inr (w, sb) \<Rightarrow>
               (case runProcessor (processPopulate env (populate_st sb)) (sb\<lparr>where_st := w\<rparr>) of
                  Inl e \<Rightarrow> Inl e
                | Inr (p, sc) \<Rightarrow> Inr (sc\<lparr>populate_st := p\<rparr>))))"
  by (simp add: processState_def Let_def split: sum.split prod.split)

lemma processState_samePaging:
  assumes "samePaging s t"
  shows "rel_sum (=) samePaging (processState env s) (processState env t)"
proof -
  let ?po = "processOrderBy env (orderBy_st s)"
  have o: "orderBy_st t = orderBy_st s" by (rule samePaging_fields [OF assms])
  show ?thesis
  proof (cases "runProcessor ?po s")
    case (Inl e)
    then show ?thesis
      using runProcessor_samePaging [OF assms, of ?po]
      by (cases "runProcessor ?po t") (simp_all add: processState_eq o)
  next
    case r1: (Inr x1)
    obtain ob sa where x1: "x1 = (ob, sa)" by (cases x1)
    obtain ta where t1: "runProcessor ?po t = Inr (ob, ta)" and p1: "samePaging sa ta"
      using runProcessor_samePaging [OF assms, of ?po] r1 x1
      by (cases "runProcessor ?po t") auto
    let ?pw = "processWhere env (where_st sa)"
    let ?s1 = "sa\<lparr>orderBy_st := ob\<rparr>" and ?t1 = "ta\<lparr>orderBy_st := ob\<rparr>"
    have w: "where_st ta = where_st sa" by (rule samePaging_fields [OF p1])
    have q1: "samePaging ?s1 ?t1" by (rule samePaging_orderBy [OF p1])
    have A1: "processState env s =
       (case runProcessor ?pw ?s1 of
             Inl e \<Rightarrow> Inl e
           | Inr (w, sb) \<Rightarrow>
               (case runProcessor (processPopulate env (populate_st sb)) (sb\<lparr>where_st := w\<rparr>) of
                  Inl e \<Rightarrow> Inl e
                | Inr (p, sc) \<Rightarrow> Inr (sc\<lparr>populate_st := p\<rparr>)))"
      unfolding processState_eq [of env s] r1 x1 by simp
    have B1: "processState env t =
       (case runProcessor ?pw ?t1 of
             Inl e \<Rightarrow> Inl e
           | Inr (w, sb) \<Rightarrow>
               (case runProcessor (processPopulate env (populate_st sb)) (sb\<lparr>where_st := w\<rparr>) of
                  Inl e \<Rightarrow> Inl e
                | Inr (p, sc) \<Rightarrow> Inr (sc\<lparr>populate_st := p\<rparr>)))"
      unfolding processState_eq [of env t] o t1 by (simp add: w)
    show ?thesis
    proof (cases "runProcessor ?pw ?s1")
      case (Inl e)
      then show ?thesis
        unfolding A1 B1
        using runProcessor_samePaging [OF q1, of ?pw]
        by (cases "runProcessor ?pw ?t1") simp_all
    next
      case r2: (Inr x2)
      obtain w sb where x2: "x2 = (w, sb)" by (cases x2)
      obtain tb where t2: "runProcessor ?pw ?t1 = Inr (w, tb)" and p2: "samePaging sb tb"
        using runProcessor_samePaging [OF q1, of ?pw] r2 x2
        by (cases "runProcessor ?pw ?t1") auto
      let ?pp = "processPopulate env (populate_st sb)"
      let ?s2 = "sb\<lparr>where_st := w\<rparr>" and ?t2 = "tb\<lparr>where_st := w\<rparr>"
      have pp: "populate_st tb = populate_st sb" by (rule samePaging_fields [OF p2])
      have q2: "samePaging ?s2 ?t2" by (rule samePaging_where [OF p2])
      have A2: "processState env s =
          (case runProcessor ?pp ?s2 of Inl e \<Rightarrow> Inl e | Inr (p, sc) \<Rightarrow> Inr (sc\<lparr>populate_st := p\<rparr>))"
        unfolding A1 r2 x2 by simp
      have B2: "processState env t =
          (case runProcessor ?pp ?t2 of Inl e \<Rightarrow> Inl e | Inr (p, sc) \<Rightarrow> Inr (sc\<lparr>populate_st := p\<rparr>))"
        unfolding B1 t2 by (simp add: pp)
      show ?thesis
        unfolding A2 B2
        using runProcessor_samePaging [OF q2, of ?pp]
        by (cases "runProcessor ?pp ?s2"; cases "runProcessor ?pp ?t2")
           (auto intro: samePaging_populate)
    qed
  qed
qed

lemma aliasColumn_limit: "aliasColumn (s\<lparr>limit_st := a\<rparr>) c al = aliasColumn s c al"
  by (rule aliasColumn_type) simp

lemma aliasColumn_offset: "aliasColumn (s\<lparr>offset_st := a\<rparr>) c al = aliasColumn s c al"
  by (rule aliasColumn_type) simp

lemma aliasColumn_select: "aliasColumn (s\<lparr>select_st := a\<rparr>) c al = aliasColumn s c al"
  by (rule aliasColumn_type) simp

lemma switchType_paging:
  "switchType env (s\<lparr>limit_st := a, offset_st := b\<rparr>) qb =
     map_sum id (\<lambda>(s2, dbs, qb2). (s2\<lparr>limit_st := a, offset_st := b\<rparr>, dbs, qb2)) (switchType env s qb)"
  by (cases "type_st s")
     (simp_all add: switchType_def Let_def aliasColumn_limit aliasColumn_offset aliasColumn_select
        mustUseAlias_def split: sum.splits)

lemma switchType_samePaging:
  assumes "samePaging s t"
  shows "rel_sum (=) sameResult (switchType env s qb) (switchType env t qb)"
proof -
  obtain a b where t: "t = s\<lparr>limit_st := a, offset_st := b\<rparr>"
    and a: "a = limit_st s \<or> (\<not> truthy (limit_st s) \<and> \<not> truthy a)"
    and b: "b = offset_st s \<or> (\<not> truthy (offset_st s) \<and> \<not> truthy b)"
    using samePaging_D [OF assms] by blast
  show ?thesis
  proof (cases "switchType env s qb")
    case (Inl e)
    then show ?thesis by (simp add: t switchType_paging)
  next
    case (Inr r)
    obtain s2 dbs qb2 where r: "r = (s2, dbs, qb2)" by (cases r)
    have k: "s2 = s\<lparr>select_st := select_st s2\<rparr>"
      using switchType_keeps(1) [of env s qb s2 dbs qb2] Inr r by simp
    have "samePaging s2 (s2\<lparr>limit_st := a, offset_st := b\<rparr>)"
    proof (rule samePaging_I [where a = a and b = b])
      show "s2\<lparr>limit_st := a, offset_st := b\<rparr> = s2\<lparr>limit_st := a, offset_st := b\<rparr>" ..
      have "limit_st s2 = limit_st s" "offset_st s2 = offset_st s"
        by (subst k, simp)+
      then show "a = limit_st s2 \<or> \<not> truthy (limit_st s2) \<and> \<not> truthy a"
        and "b = offset_st s2 \<or> \<not> truthy (offset_st s2) \<and> \<not> truthy b"
        using a b by simp_all
    qed
    then show ?thesis
      by (simp add: t switchType_paging Inr r sameResult_def)
  qed
qed

lemma clauseList_samePaging:
  assumes "samePaging s t"
  shows "clauseList t = clauseList s"
proof -
  obtain a b where t: "t = s\<lparr>limit_st := a, offset_st := b\<rparr>"
    and a: "a = limit_st s \<or> (\<not> truthy (limit_st s) \<and> \<not> truthy a)"
    and b: "b = offset_st s \<or> (\<not> truthy (offset_st s) \<and> \<not> truthy b)"
    using samePaging_D [OF assms] by blast
  show ?thesis
    using a b by (auto simp: t clauseList_def)
qed

lemma getKnexQuery_direct_samePaging:
  assumes "samePaging s t" and "\<not> shouldUseSubQuery s"
  shows "rel_sum (=) sameResult (getKnexQuery env s) (getKnexQuery env t)"
proof -
  note f = samePaging_fields [OF assms(1)]
  have nt: "\<not> shouldUseSubQuery t"
    using assms(2) by (simp add: shouldUseSubQuery_def f)
  have m: "mustUseAlias t = mustUseAlias s"
    by (simp add: mustUseAlias_def f)
  let ?qb = "Knex (if mustUseAlias s then AliasedTable alias_qb (tableName env)
                   else Table (tableName env)) []"
  show ?thesis
  proof (cases "processState env s")
    case (Inl e)
    then show ?thesis
      using processState_samePaging [OF assms(1), of env]
      by (cases "processState env t")
         (simp_all add: getKnexQuery_direct [OF assms(2)] getKnexQuery_direct [OF nt])
  next
    case ps: (Inr s1)
    obtain t1 where pt: "processState env t = Inr t1" and p1: "samePaging s1 t1"
      using processState_samePaging [OF assms(1), of env] ps
      by (cases "processState env t") simp_all
    show ?thesis
    proof (cases "switchType env s1 ?qb")
      case (Inl e)
      then show ?thesis
        using switchType_samePaging [OF p1, of env ?qb]
        by (cases "switchType env t1 ?qb")
           (simp_all add: getKnexQuery_direct [OF assms(2)] getKnexQuery_direct [OF nt] ps pt m)
    next
      case (Inr r)
      obtain s2 dbs qb2 where r: "r = (s2, dbs, qb2)" by (cases r)
      obtain t2 where st: "switchType env t1 ?qb = Inr (t2, dbs, qb2)" and p2: "samePaging s2 t2"
        using switchType_samePaging [OF p1, of env ?qb] Inr r
        by (cases "switchType env t1 ?qb") (auto simp: sameResult_def)
      have "applyClauses t2 qb2 = applyClauses s2 qb2"
        by (simp add: applyClauses_eq clauseList_samePaging [OF p2])
      then show ?thesis
        by (simp add: getKnexQuery_direct [OF assms(2)] getKnexQuery_direct [OF nt] ps pt m
            Inr r st sameResult_def p2)
    qed
  qed
qed

lemma select_not_sub: "\<not> shouldUseSubQuery (select a s)"
  by (simp add: shouldUseSubQuery_def select_def)

lemma select_samePaging:
  assumes "samePaging s t"
  shows "samePaging (select x s) (select x t)"
  using applyCall_samePaging [OF assms, of "CSelect x"] by simp

lemma getKnexQuery_samePaging:
  assumes "samePaging s t"
  shows "rel_sum (=) sameResult (getKnexQuery env s) (getKnexQuery env t)"
proof (cases "shouldUseSubQuery s")
  case False
  then show ?thesis by (rule getKnexQuery_direct_samePaging [OF assms])
next
  case True
  note f = samePaging_fields [OF assms]
  have st: "shouldUseSubQuery t"
    using True by (simp add: shouldUseSubQuery_def f)
  let ?s1 = "select (JStr ''id'') s" and ?t1 = "select (JStr ''id'') t"
  have inner: "rel_sum (=) sameResult (getKnexQuery env ?s1) (getKnexQuery env ?t1)"
    by (rule getKnexQuery_direct_samePaging [OF select_samePaging [OF assms] select_not_sub])
  show ?thesis
  proof (cases "getKnexQuery env ?s1")
    case (Inl e)
    then show ?thesis
      using inner
      by (cases "getKnexQuery env ?t1")
         (simp_all add: getKnexQuery_sub [OF True] getKnexQuery_sub [OF st] runSubQuery.simps)
  next
    case (Inr r)
    obtain s2 dbs q where r: "r = (s2, dbs, q)" by (cases r)
    obtain t2 where it: "getKnexQuery env ?t1 = Inr (t2, dbs, q)" and p2: "samePaging s2 t2"
      using inner Inr r by (cases "getKnexQuery env ?t1") (auto simp: sameResult_def)
    have "type_st t2 = type_st s2" by (rule samePaging_fields [OF p2])
    then show ?thesis
      by (simp add: getKnexQuery_sub [OF True] getKnexQuery_sub [OF st] runSubQuery.simps
          Inr r it sameResult_def p2)
  qed
qed

lemma compiled_samePaging:
  assumes "samePaging s t"
  shows "compiled (getKnexQuery env t) = compiled (getKnexQuery env s)"
  using getKnexQuery_samePaging [OF assms, of env]
  by (cases "getKnexQuery env s"; cases "getKnexQuery env t")
     (auto simp: compiled_def sameResult_def)

lemma getKnexQuery_sub_calls:
  assumes "shouldUseSubQuery s" and "getKnexQuery env s = Inr (s', dbs, q)"
  shows "\<exists>subQB. getKnexQuery env (select (JStr ''id'') s) = Inr (s', dbs, subQB) \<and>
           q = Knex (Table (tableName env))
                 [methodCall (type_st s'),
                  KWhereIn ''id'' (Knex NoTable [KSelect [JStr ''id''], KFrom subQB ''subQuery''])]"
  using assms(2) unfolding getKnexQuery_sub [OF assms(1)]
  by (auto simp: runSubQuery.simps Let_def split: sum.splits)

lemma getKnexQuery_direct_calls:
  assumes "\<not> shouldUseSubQuery s" and "getKnexQuery env s = Inr (s', dbs, q)"
  shows "\<exists>ops. (\<forall>c\<in>set ops. isSwitchClause c) \<and> calls q = ops @ clauseList s'"
proof -
  obtain s1 qb2 where a: "processState env s = Inr s1"
      and b: "switchType env s1 (Knex (if mustUseAlias s then AliasedTable alias_qb (tableName env)
                         else Table (tableName env)) []) = Inr (s', dbs, qb2)"
      and c: "q = applyClauses s' qb2"
    using getKnexQuery_direct_Inr [OF assms] by blast
  obtain ops where "calls qb2 = ops" "\<forall>c\<in>set ops. isSwitchClause c"
    using switchType_calls [OF b] by auto
  then show ?thesis
    using c by (auto simp: applyClauses_eq)
qed

lemma getKnexQuery_example_select:
  "getKnexQuery example_env (example_select\<lparr>limit_st := l, offset_st := off\<rparr>) =
     Inr (example_select\<lparr>limit_st := l, offset_st := off, select_st := [JStr ''t0.age'', JStr ''name'']\<rparr>, [],
      Knex (AliasedTable ''t0'' ''users'')
        ([KDistinct (JStr ''t0.id''), KSelect [JStr ''t0.age'', JStr ''t0.name'']]
         @ (if truthy l then [KLimit l] else [])
         @ (if truthy off then [KOffset off] else [])
         @ [KOrderBy [example_order], KFirst, KApplyWhere [example_filter],
            KWhere [KApplySearch (JStr ''bob'') ''t0''],
            KApplyJoins [example_join]]))"
proof -
  let ?s = "example_select\<lparr>limit_st := l, offset_st := off\<rparr>"
  have ns: "\<not> shouldUseSubQuery ?s"
    by (simp add: shouldUseSubQuery_def example_select_def initial_state_def)
  show ?thesis
    unfolding getKnexQuery_direct [OF ns] processState_example
    by (simp add: switchType_def applyClauses_def example_select_def initial_state_def
        mustUseAlias_def alias_qb_eq example_env_simps example_order_def)
qed

text \<open>
  Claim C10. A limit or offset that is falsy (0, null, undefined) when the clauses are
  applied puts no limit or offset clause into the compiled query; on the path without
  subquery a truthy one is applied. Compiling after \<^verbatim>\<open>limit(0)\<close> gives the same query as
  compiling after \<^verbatim>\<open>limit(null)\<close>, and the same query as the untouched builder whose limit
  is still null; likewise for offset. The limit and offset the clauses are applied from
  are those of the returned state: the ones the caller has set, unless a processor has set
  others.
\<close>

theorem falsy_paging_not_applied:
  "(getKnexQuery env s = Inr (s', dbs, q) \<and> \<not> truthy (limit_st s') \<longrightarrow> (\<forall>v. KLimit v \<notin> set (calls q))) \<and>
   (getKnexQuery env s = Inr (s', dbs, q) \<and> \<not> truthy (offset_st s') \<longrightarrow> (\<forall>v. KOffset v \<notin> set (calls q))) \<and>
   (getKnexQuery env s = Inr (s', dbs, q) \<and> \<not> shouldUseSubQuery s \<and> truthy (limit_st s') \<longrightarrow>
      KLimit (limit_st s') \<in> set (calls q)) \<and>
   (getKnexQuery env s = Inr (s', dbs, q) \<and> \<not> shouldUseSubQuery s \<and> truthy (offset_st s') \<longrightarrow>
      KOffset (offset_st s') \<in> set (calls q)) \<and>
   compiled (getKnexQuery env (limit (JNum 0) s)) = compiled (getKnexQuery env (limit JNull s)) \<and>
   compiled (getKnexQuery env (offset (JNum 0) s)) = compiled (getKnexQuery env (offset JNull s)) \<and>
   (limit_st s = JNull \<longrightarrow> compiled (getKnexQuery env (limit (JNum 0) s)) = compiled (getKnexQuery env s)) \<and>
   (offset_st s = JNull \<longrightarrow> compiled (getKnexQuery env (offset (JNum 0) s)) = compiled (getKnexQuery env s))"
proof -
  have none: "(\<forall>v. KLimit v \<notin> set (calls q)) \<and> (\<forall>v. KOffset v \<notin> set (calls q))"
    if sub: "shouldUseSubQuery s" and run: "getKnexQuery env s = Inr (s', dbs, q)"
  proof -
    obtain subQB where "q = Knex (Table (tableName env))
                 [methodCall (type_st s'),
                  KWhereIn ''id'' (Knex NoTable [KSelect [JStr ''id''], KFrom subQB ''subQuery''])]"
      using getKnexQuery_sub_calls [OF sub run] by blast
    then show ?thesis by (cases "type_st s'") auto
  qed
  have direct: "(\<forall>v. (KLimit v \<in> set (calls q)) = (truthy (limit_st s') \<and> v = limit_st s')) \<and>
                (\<forall>v. (KOffset v \<in> set (calls q)) = (truthy (offset_st s') \<and> v = offset_st s'))"
    if nsub: "\<not> shouldUseSubQuery s" and run: "getKnexQuery env s = Inr (s', dbs, q)"
  proof -
    obtain ops where ops: "\<forall>c\<in>set ops. isSwitchClause c" "calls q = ops @ clauseList s'"
      using getKnexQuery_direct_calls [OF nsub run] by blast
    have "KLimit v \<notin> set ops" "KOffset v \<notin> set ops" for v
      using ops(1) by auto
    then show ?thesis
      unfolding ops(2) by (auto simp: clauseList_def)
  qed
  have l0: "compiled (getKnexQuery env (limit (JNum 0) s)) = compiled (getKnexQuery env (limit JNull s))"
    by (rule compiled_samePaging) (simp add: samePaging_def limit_def)
  have o0: "compiled (getKnexQuery env (offset (JNum 0) s)) = compiled (getKnexQuery env (offset JNull s))"
    by (rule compiled_samePaging) (simp add: samePaging_def offset_def)
  have ln: "limit JNull s = s" if "limit_st s = JNull"
    using that by (simp add: limit_def)
  have on: "offset JNull s = s" if "offset_st s = JNull"
    using that by (simp add: offset_def)
  show ?thesis
    using none direct l0 o0 ln on by (cases "shouldUseSubQuery s") auto
qed

theorem falsy_paging_not_applied_witness:
  "(\<exists>s' dbs q. getKnexQuery example_env (limit (JNum 0) (offset JNull example_select)) = Inr (s', dbs, q) \<and>
      \<not> truthy (limit_st s') \<and> \<not> truthy (offset_st s') \<and>
      (\<forall>v. KLimit v \<notin> set (calls q)) \<and> (\<forall>v. KOffset v \<notin> set (calls q))) \<and>
   (\<exists>s' dbs q. getKnexQuery example_env example_select = Inr (s', dbs, q) \<and>
      \<not> shouldUseSubQuery example_select \<and>
      truthy (limit_st s') \<and> truthy (offset_st s') \<and>
      KLimit (JNum 10) \<in> set (calls q) \<and> KOffset (JNum 5) \<in> set (calls q))"
proof -
  let ?s0 = "limit (JNum 0) (offset JNull example_select)"
  let ?s0' = "example_select\<lparr>limit_st := JNum 0, offset_st := JNull, select_st := [JStr ''t0.age'', JStr ''name'']\<rparr>"
  let ?q0 = "Knex (AliasedTable ''t0'' ''users'')
        ([KDistinct (JStr ''t0.id''), KSelect [JStr ''t0.age'', JStr ''t0.name'']]
         @ [KOrderBy [example_order], KFirst, KApplyWhere [example_filter],
            KWhere [KApplySearch (JStr ''bob'') ''t0''],
            KApplyJoins [example_join]])"
  have s0: "?s0 = example_select\<lparr>limit_st := JNum 0, offset_st := JNull\<rparr>"
    by (simp add: limit_def offset_def)
  have r0: "getKnexQuery example_env ?s0 = Inr (?s0', [], ?q0)"
    unfolding s0 getKnexQuery_example_select by simp
  have f0: "\<not> truthy (limit_st ?s0')" "\<not> truthy (offset_st ?s0')"
    by simp_all
  have a: "(\<forall>v. KLimit v \<notin> set (calls ?q0)) \<and> (\<forall>v. KOffset v \<notin> set (calls ?q0))"
    using falsy_paging_not_applied [of example_env ?s0 ?s0' "[]" ?q0] r0 f0 by blast
  let ?s1' = "example_select\<lparr>limit_st := JNum 10, offset_st := JNum 5, select_st := [JStr ''t0.age'', JStr ''name'']\<rparr>"
  let ?q1 = "Knex (AliasedTable ''t0'' ''users'')
        ([KDistinct (JStr ''t0.id''), KSelect [JStr ''t0.age'', JStr ''t0.name'']]
         @ [KLimit (JNum 10)] @ [KOffset (JNum 5)]
         @ [KOrderBy [example_order], KFirst, KApplyWhere [example_filter],
            KWhere [KApplySearch (JStr ''bob'') ''t0''],
            KApplyJoins [example_join]])"
  have s1: "example_select = example_select\<lparr>limit_st := JNum 10, offset_st := JNum 5\<rparr>"
    by (simp add: example_select_def)
  have r1: "getKnexQuery example_env example_select = Inr (?s1', [], ?q1)"
    by (subst s1, subst getKnexQuery_example_select) simp
  have n1: "\<not> shouldUseSubQuery example_select"
    by (simp add: shouldUseSubQuery_def example_select_def initial_state_def)
  have t1: "truthy (limit_st ?s1')" "truthy (offset_st ?s1')"
       "limit_st ?s1' = JNum 10" "offset_st ?s1' = JNum 5"
    by simp_all
  have b: "KLimit (JNum 10) \<in> set (calls ?q1) \<and> KOffset (JNum 5) \<in> set (calls ?q1)"
    using falsy_paging_not_applied [of example_env example_select ?s1' "[]" ?q1] r1 n1 t1 by metis
  show ?thesis
    using r0 f0 a r1 n1 t1(1,2) b by blast
qed

subsection \<open>The selected columns\<close>

lemma seen_iff: "list_ex (\<lambda>y. sameValueZero y x) acc = (identity x \<in> identity ` set acc)"
  by (auto simp: list_ex_iff sameValueZero_def image_iff) metis

lemma baseUniq_filter:
  "baseUniq acc xs = acc @ baseUniq [] (filter (\<lambda>y. identity y \<notin> identity ` set acc) xs)"
proof (induction "length xs" arbitrary: xs acc rule: less_induct)
  case less
  show ?case
  proof (cases xs)
    case Nil
    then show ?thesis by simp
  next
    case (Cons x ys)
    show ?thesis
    proof (cases "identity x \<in> identity ` set acc")
      case True
      have "baseUniq acc ys = acc @ baseUniq [] (filter (\<lambda>y. identity y \<notin> identity ` set acc) ys)"
        by (rule less) (simp add: Cons)
      with True Cons show ?thesis by (simp add: seen_iff)
    next
      case False
      have a: "baseUniq (acc @ [x]) ys
                 = (acc @ [x]) @ baseUniq [] (filter (\<lambda>y. identity y \<notin> identity ` set (acc @ [x])) ys)"
        by (rule less) (simp add: Cons)
      have "length (filter (\<lambda>y. identity y \<notin> identity ` set acc) ys) < length xs"
        by (simp add: Cons less_Suc_eq_le)
      then have b: "baseUniq [x] (filter (\<lambda>y. identity y \<notin> identity ` set acc) ys)
                 = [x] @ baseUniq [] (filter (\<lambda>y. identity y \<notin> identity ` set [x])
                                        (filter (\<lambda>y. identity y \<notin> identity ` set acc) ys))"
        by (rule less)
      have c: "filter (\<lambda>y. identity y \<notin> identity ` set [x]) (filter (\<lambda>y. identity y \<notin> identity ` set acc) ys)
                 = filter (\<lambda>y. identity y \<notin> identity ` set (acc @ [x])) ys"
        by (auto intro: filter_cong)
      have d: "baseUniq [] (x # filter (\<lambda>y. identity y \<notin> identity ` set acc) ys)
                 = baseUniq [x] (filter (\<lambda>y. identity y \<notin> identity ` set acc) ys)"
        by simp
      show ?thesis
        using False Cons a b c d by (simp add: seen_iff)
    qed
  qed
qed

lemma uniq_Nil: "uniq [] = []"
  by (simp add: uniq_def)

lemma uniq_Cons: "uniq (x # xs) = x # uniq (filter (\<lambda>y. \<not> sameValueZero x y) xs)"
proof -
  have "filter (\<lambda>y. identity y \<notin> identity ` set [x]) xs = filter (\<lambda>y. \<not> sameValueZero x y) xs"
    by (auto simp: sameValueZero_def intro: filter_cong)
  then show ?thesis
    using baseUniq_filter [of "[x]" xs] by (simp add: uniq_def)
qed

lemma uniq_firstSeen: "uniq xs = firstSeen xs"
  by (induction xs rule: firstSeen.induct) (simp_all add: uniq_Nil uniq_Cons)

lemma set_firstSeen: "set (firstSeen xs) \<subseteq> set xs"
  by (induction xs rule: firstSeen.induct) auto

lemma identities_firstSeen: "identity ` set (firstSeen xs) = identity ` set xs"
proof (induction xs rule: firstSeen.induct)
  case 1
  show ?case by simp
next
  case (2 x xs)
  have "identity ` set (filter (\<lambda>y. \<not> sameValueZero x y) xs) = identity ` set xs - {identity x}"
    by (auto simp: sameValueZero_def)
  with 2 show ?case by auto
qed

lemma deduplicated_firstSeen: "deduplicated (firstSeen xs)"
proof (induction xs rule: firstSeen.induct)
  case 1
  show ?case by (simp add: deduplicated_def)
next
  case (2 x xs)
  have "identity x \<notin> identity ` set (filter (\<lambda>y. \<not> sameValueZero x y) xs)"
    by (auto simp: sameValueZero_def)
  with 2 show ?case
    by (simp add: deduplicated_def identities_firstSeen)
qed

lemma firstSeen_deduplicated: "deduplicated xs \<Longrightarrow> firstSeen xs = xs"
proof (induction xs)
  case Nil
  show ?case by simp
next
  case (Cons x xs)
  then have "filter (\<lambda>y. \<not> sameValueZero x y) xs = xs"
    by (auto simp: deduplicated_def sameValueZero_def intro!: filter_True)
  with Cons show ?case by (simp add: deduplicated_def)
qed

lemma filter_firstSeen:
  "filter (\<lambda>y. Q (identity y)) (firstSeen xs) = firstSeen (filter (\<lambda>y. Q (identity y)) xs)"
proof (induction xs rule: firstSeen.induct)
  case 1
  show ?case by simp
next
  case (2 x xs)
  have comm: "filter (\<lambda>y. Q (identity y)) (filter (\<lambda>y. \<not> sameValueZero x y) xs)
                = filter (\<lambda>y. \<not> sameValueZero x y) (filter (\<lambda>y. Q (identity y)) xs)"
    by (auto intro: filter_cong)
  show ?case
  proof (cases "Q (identity x)")
    case True
    with 2 comm show ?thesis by simp
  next
    case False
    then have "filter (\<lambda>y. Q (identity y)) (filter (\<lambda>y. \<not> sameValueZero x y) xs)
                 = filter (\<lambda>y. Q (identity y)) xs"
      by (auto simp: sameValueZero_def intro: filter_cong)
    with 2 False show ?thesis by simp
  qed
qed

lemma firstSeen_append:
  "firstSeen (xs @ ys) = firstSeen xs @ filter (\<lambda>y. identity y \<notin> identity ` set xs) (firstSeen ys)"
proof (induction xs arbitrary: ys rule: firstSeen.induct)
  case 1
  show ?case by simp
next
  case (2 x xs)
  let ?ne = "\<lambda>y. \<not> sameValueZero x y"
  have ne: "?ne = (\<lambda>y. identity y \<noteq> identity x)"
    by (auto simp: sameValueZero_def)
  have a: "filter (\<lambda>y. identity y \<notin> identity ` set (filter ?ne xs)) (firstSeen (filter ?ne ys))
        = filter (\<lambda>y. identity y \<notin> identity ` set (x # xs)) (firstSeen ys)"
    unfolding ne filter_firstSeen [where Q = "\<lambda>i. i \<noteq> identity x", symmetric]
    by (auto intro: filter_cong)
  have "firstSeen ((x # xs) @ ys) = x # firstSeen (filter ?ne xs @ filter ?ne ys)"
    by simp
  also have "\<dots> = x # firstSeen (filter ?ne xs)
                   @ filter (\<lambda>y. identity y \<notin> identity ` set (filter ?ne xs)) (firstSeen (filter ?ne ys))"
    unfolding 2 [of "filter ?ne ys"] ..
  also have "\<dots> = firstSeen (x # xs) @ filter (\<lambda>y. identity y \<notin> identity ` set (x # xs)) (firstSeen ys)"
    unfolding a by simp
  finally show ?case .
qed

lemma firstSeen_idem: "firstSeen (firstSeen xs) = firstSeen xs"
  by (rule firstSeen_deduplicated) (rule deduplicated_firstSeen)

lemma firstSeen_append_cong:
  assumes "firstSeen xs = firstSeen ys"
  shows "firstSeen (xs @ zs) = firstSeen (ys @ zs)"
proof -
  have "identity ` set xs = identity ` set ys"
    using assms identities_firstSeen [of xs] identities_firstSeen [of ys] by simp
  with assms show ?thesis by (simp add: firstSeen_append)
qed

lemma requested_cong:
  assumes "firstSeen acc1 = firstSeen acc2"
  shows "firstSeen (requested cs acc1) = firstSeen (requested cs acc2)"
  using assms
proof (induction cs arbitrary: acc1 acc2)
  case Nil
  then show ?case by simp
next
  case (Cons c cs)
  show ?case
  proof (cases c)
    case (CSelect a)
    then show ?thesis by simp
  next
    case (CAddSelect a)
    have e: "firstSeen (acc1 @ castArray a) = firstSeen (acc2 @ castArray a)"
      by (rule firstSeen_append_cong) (rule Cons.prems)
    have "firstSeen (requested cs (acc1 @ castArray a)) = firstSeen (requested cs (acc2 @ castArray a))"
      by (rule Cons.IH [OF e])
    then show ?thesis
      using CAddSelect by simp
  qed (simp_all add: Cons.IH [OF Cons.prems])
qed

lemma select_st_select: "select_st (select a s) = firstSeen (castArray a)"
  by (simp add: select_def uniq_firstSeen)

lemma select_st_addSelect: "select_st (addSelect a s) = firstSeen (select_st s @ castArray a)"
  by (simp add: addSelect_def uniq_firstSeen)

lemma applyCall_other:
  assumes "applyCall c s = Inr s1" and "\<forall>a. c \<noteq> CSelect a" and "\<forall>a. c \<noteq> CAddSelect a"
  shows "select_st s1 = select_st s" and "requested (c # cs) acc = requested cs acc"
  using assms
  by (cases c; auto simp: insert_qb_def delete_def update_def count_def
        limit_def offset_def orderBy_def groupBy_def populate_def search_def first_def join_def
        getAlias_qb_def where_qb_def Let_def split: if_splits)+

lemma applyCalls_requested:
  assumes "deduplicated (select_st s)" and "applyCalls cs s = Inr t"
  shows "select_st t = firstSeen (requested cs (select_st s))"
  using assms
proof (induction cs arbitrary: s)
  case Nil
  then show ?case by (simp add: firstSeen_deduplicated)
next
  case (Cons c cs)
  obtain s1 where c1: "applyCall c s = Inr s1" and rest: "applyCalls cs s1 = Inr t"
    using Cons.prems(2) by (cases "applyCall c s") simp_all
  consider (sel) a where "c = CSelect a" | (add) a where "c = CAddSelect a"
    | (other) "\<forall>a. c \<noteq> CSelect a" "\<forall>a. c \<noteq> CAddSelect a"
    by blast
  then show ?case
  proof cases
    case sel
    have s1: "s1 = select a s" using c1 sel by simp
    have d: "deduplicated (select_st s1)"
      by (simp add: s1 select_st_select deduplicated_firstSeen)
    have "select_st t = firstSeen (requested cs (firstSeen (castArray a)))"
      using Cons.IH [OF d rest] by (simp add: s1 select_st_select)
    also have "\<dots> = firstSeen (requested cs (castArray a))"
      by (rule requested_cong) (rule firstSeen_idem)
    finally show ?thesis by (simp add: sel)
  next
    case add
    have s1: "s1 = addSelect a s" using c1 add by simp
    have d: "deduplicated (select_st s1)"
      by (simp add: s1 select_st_addSelect deduplicated_firstSeen)
    have "select_st t = firstSeen (requested cs (firstSeen (select_st s @ castArray a)))"
      using Cons.IH [OF d rest] by (simp add: s1 select_st_addSelect)
    also have "\<dots> = firstSeen (requested cs (select_st s @ castArray a))"
      by (rule requested_cong) (rule firstSeen_idem)
    finally show ?thesis by (simp add: add)
  next
    case other
    note o = applyCall_other [OF c1 other]
    have d: "deduplicated (select_st s1)"
      using Cons.prems(1) by (simp add: o(1))
    show ?thesis
      using Cons.IH [OF d rest] by (simp add: o)
  qed
qed

lemma getKnexQuery_Select_columns:
  assumes "\<not> shouldUseSubQuery s" and "processState env s = Inr s1" and "type_st s1 = Select"
    and "getKnexQuery env s = Inr (s', dbs, q)"
  shows "\<exists>cols. select_st s' = cols @ (if select_st s1 = [] then [JStr ''*''] else select_st s1) \<and>
               (joins_st s1 = [] \<or> groupBy_st s1 \<noteq> [] \<longrightarrow> cols = []) \<and>
               KSelect (map (\<lambda>c. aliasColumn s1 c None) (select_st s')) \<in> set (calls q)"
proof -
  let ?qb = "Knex (if mustUseAlias s then AliasedTable alias_qb (tableName env)
                   else Table (tableName env)) []"
  obtain p qb2 where a: "processState env s = Inr p"
      and b0: "switchType env p ?qb = Inr (s', dbs, qb2)"
      and c: "q = applyClauses s' qb2"
    using getKnexQuery_direct_Inr [OF assms(1) assms(4)] by blast
  have p: "p = s1" using a assms(2) by simp
  note b = b0 [unfolded p]
  let ?base = "if select_st s1 = [] then [JStr ''*''] else select_st s1"
  show ?thesis
  proof (cases "joins_st s1 \<noteq> [] \<and> groupBy_st s1 = []")
    case True
    then obtain cols where mc: "mapColumns (orderBy_st s1) = Inr cols"
      using b unfolding switchType_Select [OF assms(3)] by (auto simp: Let_def split: sum.splits)
    have sw: "switchType env s1 ?qb = Inr (s1\<lparr>select_st := cols @ ?base\<rparr>, [],
                Knex (table ?qb) [KDistinct (JStr (alias_qb @ ''.id'')),
                     KSelect (map (\<lambda>column. aliasColumn s1 column None) (cols @ ?base))])"
      unfolding switchType_Select [OF assms(3)] using True mc by (simp add: Let_def)
    have s': "s' = s1\<lparr>select_st := cols @ ?base\<rparr>"
      and q2: "calls qb2 = [KDistinct (JStr (alias_qb @ ''.id'')),
                     KSelect (map (\<lambda>column. aliasColumn s1 column None) (cols @ ?base))]"
      using b unfolding sw by auto
    have 1: "select_st s' = cols @ ?base" unfolding s' by simp
    have 2: "KSelect (map (\<lambda>c. aliasColumn s1 c None) (select_st s')) \<in> set (calls q)"
      unfolding 1 c applyClauses_eq calls.simps q2 by simp
    have 3: "joins_st s1 = [] \<or> groupBy_st s1 \<noteq> [] \<longrightarrow> cols = []"
      using True by simp
    show ?thesis
      by (intro exI [of _ cols] conjI 1 2 3)
  next
    case False
    then have cond: "\<not> (joins_st s1 \<noteq> [] \<and> groupBy_st s1 = [])"
      by simp
    have sw: "switchType env s1 ?qb = Inr (s1\<lparr>select_st := ?base\<rparr>, [],
                Knex (table ?qb) [KSelect (map (\<lambda>column. aliasColumn s1 column None) ?base)])"
      unfolding switchType_Select [OF assms(3)] Let_def if_not_P [OF cond] by simp
    have s': "s' = s1\<lparr>select_st := ?base\<rparr>"
      and q2: "calls qb2 = [KSelect (map (\<lambda>column. aliasColumn s1 column None) ?base)]"
      using b unfolding sw by auto
    have 1: "select_st s' = [] @ ?base" unfolding s' by simp
    have 2: "KSelect (map (\<lambda>c. aliasColumn s1 c None) (select_st s')) \<in> set (calls q)"
      unfolding 1 c applyClauses_eq calls.simps q2 by simp
    have 3: "joins_st s1 = [] \<or> groupBy_st s1 \<noteq> [] \<longrightarrow> [] = ([] :: jsval list)"
      by simp
    show ?thesis
      by (intro exI [of _ "[]"] conjI 1 2 3)
  qed
qed

lemma getKnexQuery_initial_state:
  "getKnexQuery example_env initial_state =
     Inr (initial_state\<lparr>select_st := [JStr ''*'']\<rparr>, [],
          Knex (AliasedTable ''t0'' ''users'') [KSelect [JStr ''t0.*''], KApplyWhere []])"
proof -
  have ns: "\<not> shouldUseSubQuery initial_state"
    by (simp add: shouldUseSubQuery_def initial_state_def)
  show ?thesis
    unfolding getKnexQuery_direct [OF ns] processState_example
    by (simp add: switchType_def applyClauses_def initial_state_def mustUseAlias_def alias_qb_eq
        example_env_simps)
qed

text \<open>
  Claim C5. \<^verbatim>\<open>select\<close> replaces the columns by its argument, deduplicated in first-seen
  order; \<^verbatim>\<open>addSelect\<close> deduplicates the old columns followed by its argument, which on a
  deduplicated set appends the columns that are new. So after any sequence of builder calls
  on a fresh builder the columns are deduplicated and are the requested columns in
  first-seen order, where two columns are duplicates when they are the same value: equal
  strings, or one object given twice. When the switch runs, a select puts \<open>*\<close> in place of
  the columns exactly when there are none, behind the order-by columns that a join without
  group-by prepends.
\<close>

theorem select_columns_first_seen:
  "select_st (select a s) = firstSeen (castArray a) \<and>
   select_st (addSelect a s) = firstSeen (select_st s @ castArray a) \<and>
   (deduplicated (select_st s) \<longrightarrow>
      select_st (addSelect a s)
        = select_st s @ filter (\<lambda>c. \<not> (\<exists>y\<in>set (select_st s). sameValueZero y c)) (firstSeen (castArray a))) \<and>
   (applyCalls cs initial_state = Inr t \<longrightarrow>
      select_st t = firstSeen (requested cs []) \<and> deduplicated (select_st t)) \<and>
   deduplicated (firstSeen xs) \<and> set (firstSeen xs) \<subseteq> set xs \<and>
   (\<forall>x\<in>set xs. \<exists>y\<in>set (firstSeen xs). sameValueZero y x) \<and>
   (\<not> shouldUseSubQuery s \<and> processState env s = Inr s1 \<and> type_st s1 = Select \<and>
    getKnexQuery env s = Inr (s', dbs, q) \<longrightarrow>
      (\<exists>cols. select_st s' = cols @ (if select_st s1 = [] then [JStr ''*''] else select_st s1) \<and>
              (joins_st s1 = [] \<or> groupBy_st s1 \<noteq> [] \<longrightarrow> cols = []) \<and>
              KSelect (map (\<lambda>c. aliasColumn s1 c None) (select_st s')) \<in> set (calls q)))"
proof -
  have r: "applyCalls cs initial_state = Inr t \<longrightarrow>
      select_st t = firstSeen (requested cs []) \<and> deduplicated (select_st t)"
  proof
    assume run: "applyCalls cs initial_state = Inr t"
    have d0: "deduplicated (select_st initial_state)"
      by (simp add: initial_state_def deduplicated_def)
    have "select_st t = firstSeen (requested cs (select_st initial_state))"
      by (rule applyCalls_requested [OF d0 run])
    then have e: "select_st t = firstSeen (requested cs [])"
      by (simp add: initial_state_def)
    show "select_st t = firstSeen (requested cs []) \<and> deduplicated (select_st t)"
      unfolding e by (simp add: deduplicated_firstSeen)
  qed
  have f: "(\<lambda>c. \<not> (\<exists>y\<in>set (select_st s). sameValueZero y c))
             = (\<lambda>c. identity c \<notin> identity ` set (select_st s))"
    by (auto simp: sameValueZero_def image_iff) metis
  have d: "deduplicated (select_st s) \<longrightarrow>
      select_st (addSelect a s)
        = select_st s @ filter (\<lambda>c. \<not> (\<exists>y\<in>set (select_st s). sameValueZero y c)) (firstSeen (castArray a))"
    unfolding f by (simp add: select_st_addSelect firstSeen_append firstSeen_deduplicated)
  have i: "\<forall>x\<in>set xs. \<exists>y\<in>set (firstSeen xs). sameValueZero y x"
  proof
    fix x assume "x \<in> set xs"
    then have "identity x \<in> identity ` set (firstSeen xs)"
      unfolding identities_firstSeen by simp
    then show "\<exists>y\<in>set (firstSeen xs). sameValueZero y x"
      by (auto simp: sameValueZero_def)
  qed
  have g: "\<not> shouldUseSubQuery s \<and> processState env s = Inr s1 \<and> type_st s1 = Select \<and>
    getKnexQuery env s = Inr (s', dbs, q) \<longrightarrow>
      (\<exists>cols. select_st s' = cols @ (if select_st s1 = [] then [JStr ''*''] else select_st s1) \<and>
              (joins_st s1 = [] \<or> groupBy_st s1 \<noteq> [] \<longrightarrow> cols = []) \<and>
              KSelect (map (\<lambda>c. aliasColumn s1 c None) (select_st s')) \<in> set (calls q))"
  proof (intro impI, elim conjE)
    assume "\<not> shouldUseSubQuery s" and "processState env s = Inr s1" and "type_st s1 = Select"
      and "getKnexQuery env s = Inr (s', dbs, q)"
    then show "\<exists>cols. select_st s' = cols @ (if select_st s1 = [] then [JStr ''*''] else select_st s1) \<and>
              (joins_st s1 = [] \<or> groupBy_st s1 \<noteq> [] \<longrightarrow> cols = []) \<and>
              KSelect (map (\<lambda>c. aliasColumn s1 c None) (select_st s')) \<in> set (calls q)"
      by (rule getKnexQuery_Select_columns)
  qed
  show ?thesis
    by (intro conjI select_st_select select_st_addSelect d r deduplicated_firstSeen set_firstSeen i g)
qed

theorem select_columns_first_seen_witness:
  "select_st (select (JArr 7 [JStr ''a'', JStr ''b'', JStr ''a'']) initial_state) = [JStr ''a'', JStr ''b''] \<and>
   deduplicated (select_st (select (JStr ''b'') initial_state)) \<and>
   select_st (addSelect (JArr 7 [JStr ''a'', JStr ''b'', JStr ''a'']) (select (JStr ''b'') initial_state))
     = [JStr ''b'', JStr ''a''] \<and>
   (\<exists>t. applyCalls example_select_calls initial_state = Inr t \<and>
      select_st t = [JStr ''name'', JObj 8 [(''a'', JNum 1)], JStr ''age'', JObj 10 [(''a'', JNum 1)], JStr ''id'']) \<and>
   \<not> shouldUseSubQuery initial_state \<and>
   processState example_env initial_state = Inr initial_state \<and>
   type_st initial_state = Select \<and>
   getKnexQuery example_env initial_state =
     Inr (initial_state\<lparr>select_st := [JStr ''*'']\<rparr>, [],
          Knex (AliasedTable ''t0'' ''users'') [KSelect [JStr ''t0.*''], KApplyWhere []]) \<and>
   select_st initial_state = []"
proof -
  let ?a = "JArr 7 [JStr ''a'', JStr ''b'', JStr ''a'']"
  let ?s = "select (JStr ''b'') initial_state"
  let ?t = "limit (JNum 10) initial_state\<lparr>select_st :=
              [JStr ''name'', JObj 8 [(''a'', JNum 1)], JStr ''age'', JObj 10 [(''a'', JNum 1)], JStr ''id'']\<rparr>"
  have sel: "select_st ?s = [JStr ''b'']"
    by (simp add: select_def uniq_def)
  have ded: "deduplicated (select_st ?s)"
    by (simp add: sel deduplicated_def)
  have t: "type_st initial_state = Select" "select_st initial_state = []"
    "\<not> shouldUseSubQuery initial_state"
    by (simp_all add: initial_state_def shouldUseSubQuery_def)
  have run: "applyCalls example_select_calls initial_state = Inr ?t"
    by (simp add: example_select_calls_def select_def addSelect_def limit_def uniq_def
        sameValueZero_def initial_state_def)
  note th = select_columns_first_seen [of ?a initial_state example_select_calls ?t "[]" example_env
      initial_state "initial_state\<lparr>select_st := [JStr ''*'']\<rparr>" "[]"
      "Knex (AliasedTable ''t0'' ''users'') [KSelect [JStr ''t0.*''], KApplyWhere []]"]
  note th2 = select_columns_first_seen [of ?a ?s "[]" ?s "[]" example_env ?s ?s "[]" "Knex NoTable []"]
  have 1: "select_st (select ?a initial_state) = [JStr ''a'', JStr ''b'']"
    using th by (simp add: sameValueZero_def)
  have 2: "select_st (addSelect ?a ?s) = [JStr ''b'', JStr ''a'']"
    using th2 ded sel by (simp add: sameValueZero_def)
  have 3: "select_st ?t = [JStr ''name'', JObj 8 [(''a'', JNum 1)], JStr ''age'', JObj 10 [(''a'', JNum 1)], JStr ''id'']"
    by simp
  show ?thesis
    using 1 2 3 run ded t processState_example [of initial_state] getKnexQuery_initial_state by simp
qed

subsection \<open>The subquery path\<close>

text \<open>
  Claim C1. A delete or update with joins is to compile to an inner select of \<open>id\<close> under
  the joins and filters and an outer query of the original kind with the single filter
  \<open>id IN\<close> the inner select. At a delete with one join and one filter the code compiles to
  the value below: the inner select keeps the filter and the join, and the outer query is on
  the plain table with the \<open>whereIn\<close> filter and no join, but its operation is
  \<^verbatim>\<open>select()\<close>, not \<^verbatim>\<open>delete()\<close>. The same update compiles to the same query.
\<close>

theorem delete_with_join_outer_select:
  "applyCalls [CDelete, CWhere example_filter, CJoin example_join] initial_state = Inr example_delete \<and>
   shouldUseSubQuery example_delete \<and> shouldUseSubQuery example_update \<and>
   compiled (getKnexQuery example_env example_delete) =
     Inr (Knex (Table ''users'')
            [KSelect [],
             KWhereIn ''id''
               (Knex NoTable
                  [KSelect [JStr ''id''],
                   KFrom (Knex (AliasedTable ''t0'' ''users'')
                            [KDistinct (JStr ''t0.id''), KSelect [JStr ''t0.id''],
                             KApplyWhere [example_filter],
                             KApplyJoins [example_join]])
                         ''subQuery''])]) \<and>
   compiled (getKnexQuery example_env example_update) = compiled (getKnexQuery example_env example_delete)"
  by (simp add: getKnexQuery.simps runSubQuery.simps shouldUseSubQuery_def select_def uniq_def
        processState_example switchType_def applyClauses_def compiled_def
        example_delete_def example_update_def delete_def update_def join_def where_qb_def
        example_filter_def initial_state_def mustUseAlias_def alias_qb_eq example_env_simps)

subsection \<open>The kind and its clause\<close>

text \<open>
  Claim C4. The kind at compile time is to be the one set by the last of the calls select,
  insert, update, delete and count, and the compiled query is to hold exactly one clause of
  an operation, the one of that kind. After \<^verbatim>\<open>select('name')\<close>, \<^verbatim>\<open>join(j)\<close>, \<^verbatim>\<open>delete()\<close> the
  kind is delete, the kind of the last call; the compiled query holds exactly one clause
  of an operation, and it is \<^verbatim>\<open>select()\<close>.
\<close>

theorem kind_delete_clause_select:
  "applyCalls example_kind_calls initial_state
     = Inr (delete (join example_join (select (JStr ''name'') initial_state))) \<and>
   type_st (delete (join example_join (select (JStr ''name'') initial_state))) = Delete \<and>
   map_sum id (\<lambda>q. filter (\<lambda>c. clauseKind c \<noteq> None) (calls q))
     (compiled (getKnexQuery example_env (delete (join example_join (select (JStr ''name'') initial_state)))))
     = Inr [KSelect []] \<and>
   clauseKind (KSelect []) = Some Select"
  by (simp add: example_kind_calls_def getKnexQuery.simps runSubQuery.simps shouldUseSubQuery_def
        select_def uniq_def processState_example switchType_def applyClauses_def compiled_def
        delete_def join_def initial_state_def mustUseAlias_def alias_qb_eq example_env_simps)

subsection \<open>The truncate case\<close>

text \<open>No call of the builder sets the kind truncate, and neither does a compilation: on a
  builder made by \<^verbatim>\<open>createQueryBuilder\<close> the truncate case of the switch is never taken and
  \<^verbatim>\<open>db.truncate()\<close> is never called.\<close>

lemma applyCall_not_Truncate:
  assumes "applyCall c s = Inr t" and "type_st s \<noteq> Truncate"
  shows "type_st t \<noteq> Truncate"
  using assms
  by (cases c) (auto simp: select_def addSelect_def insert_qb_def delete_def update_def count_def
        limit_def offset_def orderBy_def groupBy_def populate_def search_def first_def join_def
        getAlias_qb_def where_qb_def Let_def split: if_splits)

lemma applyCalls_not_Truncate:
  assumes "applyCalls cs s = Inr t" and "type_st s \<noteq> Truncate"
  shows "type_st t \<noteq> Truncate"
  using assms
proof (induction cs arbitrary: s)
  case Nil
  then show ?case by simp
next
  case (Cons c cs)
  obtain s1 where c1: "applyCall c s = Inr s1" and rest: "applyCalls cs s1 = Inr t"
    using Cons.prems(1) by (cases "applyCall c s") simp_all
  show ?case
    by (rule Cons.IH [OF rest applyCall_not_Truncate [OF c1 Cons.prems(2)]])
qed

lemma runProcessor_not_Truncate:
  assumes "runProcessor p s = Inr (d, t)" and "type_st s \<noteq> Truncate"
  shows "type_st t \<noteq> Truncate"
proof -
  obtain cs where "applyCalls cs s = Inr t"
    using assms(1) by (auto simp: runProcessor_def split: sum.splits prod.splits)
  then show ?thesis by (rule applyCalls_not_Truncate) (rule assms(2))
qed

lemma processState_not_Truncate:
  assumes "processState env s = Inr s1" and "type_st s \<noteq> Truncate"
  shows "type_st s1 \<noteq> Truncate"
proof -
  obtain ob sa w sb p sc
    where 1: "runProcessor (processOrderBy env (orderBy_st s)) s = Inr (ob, sa)"
      and 2: "runProcessor (processWhere env (where_st sa)) (sa\<lparr>orderBy_st := ob\<rparr>) = Inr (w, sb)"
      and 3: "runProcessor (processPopulate env (populate_st sb)) (sb\<lparr>where_st := w\<rparr>) = Inr (p, sc)"
      and 4: "s1 = sc\<lparr>populate_st := p\<rparr>"
    using assms(1) unfolding processState_eq by (auto split: sum.splits prod.splits)
  have "type_st sa \<noteq> Truncate"
    by (rule runProcessor_not_Truncate [OF 1 assms(2)])
  then have "type_st (sa\<lparr>orderBy_st := ob\<rparr>) \<noteq> Truncate" by simp
  then have "type_st sb \<noteq> Truncate"
    by (rule runProcessor_not_Truncate [OF 2])
  then have "type_st (sb\<lparr>where_st := w\<rparr>) \<noteq> Truncate" by simp
  then have "type_st sc \<noteq> Truncate"
    by (rule runProcessor_not_Truncate [OF 3])
  then show ?thesis by (simp add: 4)
qed

lemma switchType_not_Truncate:
  assumes "switchType env s qb = Inr (s2, dbs, qb2)" and "type_st s \<noteq> Truncate"
  shows "type_st s2 \<noteq> Truncate" and "dbs = []"
  using assms
  by (auto simp: switchType_def Let_def split: query_type.splits if_splits sum.splits)

lemma getKnexQuery_direct_not_Truncate:
  assumes "getKnexQuery env s = Inr (s', dbs, q)" and "type_st s \<noteq> Truncate"
    and "\<not> shouldUseSubQuery s"
  shows "type_st s' \<noteq> Truncate \<and> dbs = []"
proof -
  obtain s1 qb2 where a: "processState env s = Inr s1"
      and b: "switchType env s1 (Knex (if mustUseAlias s then AliasedTable alias_qb (tableName env)
                         else Table (tableName env)) []) = Inr (s', dbs, qb2)"
    using getKnexQuery_direct_Inr [OF assms(3) assms(1)] by blast
  show ?thesis
    using switchType_not_Truncate [OF b processState_not_Truncate [OF a assms(2)]] by simp
qed

lemma getKnexQuery_not_Truncate:
  assumes "getKnexQuery env s = Inr (s', dbs, q)" and "type_st s \<noteq> Truncate"
  shows "type_st s' \<noteq> Truncate \<and> dbs = []"
proof (cases "shouldUseSubQuery s")
  case False
  then show ?thesis by (rule getKnexQuery_direct_not_Truncate [OF assms])
next
  case True
  obtain subQB where i: "getKnexQuery env (select (JStr ''id'') s) = Inr (s', dbs, subQB)"
    using getKnexQuery_sub_calls [OF True assms(1)] by blast
  have "type_st (select (JStr ''id'') s) \<noteq> Truncate" by (simp add: select_def)
  then show ?thesis
    by (rule getKnexQuery_direct_not_Truncate [OF i _ select_not_sub])
qed

lemma fresh_builder_not_Truncate:
  assumes "applyCalls cs initial_state = Inr s"
  shows "type_st s \<noteq> Truncate"
  by (rule applyCalls_not_Truncate [OF assms]) (simp add: initial_state_def)

end
